theory Spec2Isabelle
  imports Main "HOL-Library.Sublist"
begin

section \<open>Errors and JavaScript values\<close>

text \<open>
  \<open>Error\<close> is the JavaScript \<open>Error\<close> object that the controller itself throws, with
  its message. A rejection of a registry call reaches the caller unchanged as
  \<open>RegistryLookupError\<close>, a failure of a filesystem call as \<open>FileSystemError\<close>.
\<close>

datatype error = Error string | RegistryLookupError string | FileSystemError string

text \<open>
  A value that is \<open>null\<close>/\<open>undefined\<close> or a string. In a condition JavaScript takes
  \<open>null\<close>, \<open>undefined\<close> and the empty string as false.
\<close>

fun truthy :: "string option \<Rightarrow> bool" where
  "truthy None = False"
| "truthy (Some s) = (s \<noteq> [])"

text \<open>\<open>String.prototype.includes\<close>: the text occurs somewhere in the message.\<close>

fun str_includes :: "string \<Rightarrow> string \<Rightarrow> bool" where
  "str_includes sub [] = (sub = [])"
| "str_includes sub (c # cs) = (prefix sub (c # cs) \<or> str_includes sub cs)"

section \<open>The filesystem collaborator\<close>

text \<open>
  A path is the list of its components below the root. The filesystem is a map from
  paths to entries, together with the schedule of input/output faults that the coming
  operations will meet and the journal of the calls made on \<open>$fs\<close> so far, each with
  its arguments and its answer.
\<close>

type_synonym path = "string list"

datatype entry = Dir | File string

text \<open>
  An operation either runs to its end (\<open>Pass\<close>) or fails (\<open>Fail reached\<close>) after it has
  handled the paths that satisfy \<open>reached\<close>.
\<close>

datatype fault = Pass | Fail "path \<Rightarrow> bool"

datatype fs_call =
    ExistsCall path bool
  | DeleteDirectoryCall path "error option"
  | CreateDirectoryCall path "error option"
  | CopyFileCall path path "error option"

record fs_state =
  tree :: "path \<Rightarrow> entry option"
  faults :: "fault list"
  journal :: "fs_call list"

definition record_call :: "fs_call \<Rightarrow> fs_state \<Rightarrow> fs_state" where
  "record_call c s = s\<lparr>journal := journal s @ [c]\<rparr>"

definition next_fault :: "fs_state \<Rightarrow> fault" where
  "next_fault s = (case faults s of [] \<Rightarrow> Pass | f # _ \<Rightarrow> f)"

definition pop_fault :: "fs_state \<Rightarrow> fs_state" where
  "pop_fault s = s\<lparr>faults := tl (faults s)\<rparr>"

text \<open>
  Node's \<open>path.join\<close> (POSIX) with an absolute, normalised first argument: the second
  argument is cut at every \<open>/\<close>; an empty segment and \<open>.\<close> are dropped, \<open>..\<close> goes
  one component up and stays at the root.
\<close>

fun split_on :: "char \<Rightarrow> string \<Rightarrow> string list" where
  "split_on c [] = [[]]"
| "split_on c (x # xs) =
     (if x = c then [] # split_on c xs
      else (case split_on c xs of [] \<Rightarrow> [[x]] | w # ws \<Rightarrow> (x # w) # ws))"

definition normalize_segment :: "path \<Rightarrow> string \<Rightarrow> path" where
  "normalize_segment p seg =
     (if seg = [] \<or> seg = ''.'' then p
      else if seg = ''..'' then butlast p
      else p @ [seg])"

definition path_join :: "path \<Rightarrow> string \<Rightarrow> path" where
  "path_join p folder = foldl normalize_segment p (split_on CHR ''/'' folder)"

text \<open>
  Modelled from the spec: \<open>exists(path)\<close> of the \<open>FileSystem\<close> interface behind
  \<open>$fs\<close>, whose implementation is not part of the sources. It tells whether the path
  is there.
\<close>

definition fs_exists :: "path \<Rightarrow> fs_state \<Rightarrow> bool \<times> fs_state" where
  "fs_exists p s = (tree s p \<noteq> None, record_call (ExistsCall p (tree s p \<noteq> None)) s)"

text \<open>
  Modelled from the spec: \<open>deleteDirectory(path)\<close> of the \<open>FileSystem\<close> interface,
  missing from the sources. It removes the path with everything below it; a failing
  call has removed the paths it reached.
\<close>

definition fs_deleteDirectory :: "path \<Rightarrow> fs_state \<Rightarrow> error option \<times> fs_state" where
  "fs_deleteDirectory p s =
     (case next_fault s of
        Pass \<Rightarrow>
          (None,
           record_call (DeleteDirectoryCall p None)
             ((pop_fault s)\<lparr>tree := (\<lambda>q. if prefix p q then None else tree s q)\<rparr>))
      | Fail reached \<Rightarrow>
          (Some (FileSystemError ''deleteDirectory''),
           record_call (DeleteDirectoryCall p (Some (FileSystemError ''deleteDirectory'')))
             ((pop_fault s)\<lparr>tree := (\<lambda>q. if prefix p q \<and> reached q then None else tree s q)\<rparr>)))"

definition is_File :: "entry option \<Rightarrow> bool" where
  "is_File e = (case e of Some (File _) \<Rightarrow> True | _ \<Rightarrow> False)"

text \<open>
  Modelled from the spec: \<open>createDirectory(path)\<close> of the \<open>FileSystem\<close> interface,
  missing from the sources. It makes the directory and its missing ancestors, and
  fails when the path or an ancestor is a file.
\<close>

definition fs_createDirectory :: "path \<Rightarrow> fs_state \<Rightarrow> error option \<times> fs_state" where
  "fs_createDirectory p s =
     (case next_fault s of
        Fail reached \<Rightarrow>
          (Some (FileSystemError ''createDirectory''),
           record_call (CreateDirectoryCall p (Some (FileSystemError ''createDirectory'')))
             (pop_fault s))
      | Pass \<Rightarrow>
          if list_ex (\<lambda>q. is_File (tree s q)) (prefixes p)
          then (Some (FileSystemError ''createDirectory''),
                record_call (CreateDirectoryCall p (Some (FileSystemError ''createDirectory'')))
                  (pop_fault s))
          else (None,
                record_call (CreateDirectoryCall p None)
                  ((pop_fault s)\<lparr>tree := (\<lambda>q. if prefix q p then Some Dir else tree s q)\<rparr>)))"

text \<open>
  Modelled from the spec: the copy of the \<open>FileSystem\<close> interface (\<open>copyFile\<close> in the
  code), missing from the sources. It copies the source as a child of the destination
  directory, preserving contents: below the destination the child gets every entry of
  the source, and keeps what it had elsewhere. A failing call has copied the paths it
  reached.
\<close>

definition copy_tree ::
  "(path \<Rightarrow> bool) \<Rightarrow> path \<Rightarrow> path \<Rightarrow> (path \<Rightarrow> entry option) \<Rightarrow> path \<Rightarrow> entry option" where
  "copy_tree reached src dst t =
     (\<lambda>q. if src \<noteq> [] \<and> prefix (dst @ [last src]) q \<and> reached q
          then (case t (src @ drop (Suc (length dst)) q) of Some e \<Rightarrow> Some e | None \<Rightarrow> t q)
          else t q)"

text \<open>
  Modelled from the spec: \<open>copyFile(source, destInto)\<close>, missing from the sources. The
  source must be there and the destination must be a directory.
\<close>

definition fs_copyFile :: "path \<Rightarrow> path \<Rightarrow> fs_state \<Rightarrow> error option \<times> fs_state" where
  "fs_copyFile src dst s =
     (case next_fault s of
        Fail reached \<Rightarrow>
          (Some (FileSystemError ''copyFile''),
           record_call (CopyFileCall src dst (Some (FileSystemError ''copyFile'')))
             ((pop_fault s)\<lparr>tree := copy_tree reached src dst (tree s)\<rparr>))
      | Pass \<Rightarrow>
          if src = [] \<or> tree s src = None \<or> tree s dst \<noteq> Some Dir
          then (Some (FileSystemError ''copyFile''),
                record_call (CopyFileCall src dst (Some (FileSystemError ''copyFile'')))
                  (pop_fault s))
          else (None,
                record_call (CopyFileCall src dst None)
                  ((pop_fault s)\<lparr>tree := copy_tree (\<lambda>q. True) src dst (tree s)\<rparr>)))"

section \<open>Backup and restore\<close>

text \<open>
  \<open>restoreBackup\<close> and \<open>backup\<close> of \<open>UpdateControllerBase\<close>. The result is the error
  that left the method, if any, and the filesystem as the method left it.
\<close>

fun restoreBackup :: "string list \<Rightarrow> path \<Rightarrow> path \<Rightarrow> fs_state \<Rightarrow> error option \<times> fs_state" where
  "restoreBackup [] backupDir projectDir s = (None, s)"
| "restoreBackup (folder # folders) backupDir projectDir s =
     (case fs_deleteDirectory (path_join projectDir folder) s of
        (Some e, s1) \<Rightarrow> (Some e, s1)
      | (None, s1) \<Rightarrow>
          (let folderToCopy = path_join backupDir folder in
           case fs_exists folderToCopy s1 of
             (found, s2) \<Rightarrow>
               if found then
                 (case fs_copyFile folderToCopy projectDir s2 of
                    (Some e, s3) \<Rightarrow> (Some e, s3)
                  | (None, s3) \<Rightarrow> restoreBackup folders backupDir projectDir s3)
               else restoreBackup folders backupDir projectDir s2))"

text \<open>The \<open>for\<close> loop of \<open>backup\<close>.\<close>

fun backup_folders :: "string list \<Rightarrow> path \<Rightarrow> path \<Rightarrow> fs_state \<Rightarrow> error option \<times> fs_state" where
  "backup_folders [] backupDir projectDir s = (None, s)"
| "backup_folders (folder # folders) backupDir projectDir s =
     (let folderToCopy = path_join projectDir folder in
      case fs_exists folderToCopy s of
        (found, s1) \<Rightarrow>
          if found then
            (case fs_copyFile folderToCopy backupDir s1 of
               (Some e, s2) \<Rightarrow> (Some e, s2)
             | (None, s2) \<Rightarrow> backup_folders folders backupDir projectDir s2)
          else backup_folders folders backupDir projectDir s1)"

definition backup :: "string list \<Rightarrow> path \<Rightarrow> path \<Rightarrow> fs_state \<Rightarrow> error option \<times> fs_state" where
  "backup folders backupDir projectDir s =
     (case fs_deleteDirectory backupDir s of
        (Some e, s1) \<Rightarrow> (Some e, s1)
      | (None, s1) \<Rightarrow>
          (case fs_createDirectory backupDir s1 of
             (Some e, s2) \<Rightarrow> (Some e, s2)
           | (None, s2) \<Rightarrow> backup_folders folders backupDir projectDir s2))"


text \<open>
  The specification's words for the folders of \<open>backup\<close>: for each folder name in
  turn the existence of \<open>projectRoot/folder\<close> is asked; when it exists it is copied
  into \<open>backupRoot\<close>, and when it does not the folder is skipped without a call and
  without an error.
\<close>

fun copy_protocol :: "string list \<Rightarrow> path \<Rightarrow> path \<Rightarrow> fs_call list \<Rightarrow> error option \<Rightarrow> bool" where
  "copy_protocol [] backupRoot projectRoot entries result = (entries = [] \<and> result = None)"
| "copy_protocol (f # folders) backupRoot projectRoot entries result =
     (case entries of
        ExistsCall q False # rest \<Rightarrow>
          q = path_join projectRoot f \<and> copy_protocol folders backupRoot projectRoot rest result
      | ExistsCall q True # CopyFileCall src dst (Some e) # rest \<Rightarrow>
          q = path_join projectRoot f \<and> src = path_join projectRoot f \<and> dst = backupRoot \<and>
          rest = [] \<and> result = Some e
      | ExistsCall q True # CopyFileCall src dst None # rest \<Rightarrow>
          q = path_join projectRoot f \<and> src = path_join projectRoot f \<and> dst = backupRoot \<and>
          copy_protocol folders backupRoot projectRoot rest result
      | _ \<Rightarrow> False)"

text \<open>
  The specification's words for \<open>backup\<close>: first \<open>backupRoot\<close> is deleted, then it is
  created again, then the folders are copied.
\<close>

definition backup_protocol :: "string list \<Rightarrow> path \<Rightarrow> path \<Rightarrow> fs_call list \<Rightarrow> error option \<Rightarrow> bool" where
  "backup_protocol folders backupRoot projectRoot entries result =
     (case entries of
        DeleteDirectoryCall p (Some e) # rest \<Rightarrow> p = backupRoot \<and> rest = [] \<and> result = Some e
      | DeleteDirectoryCall p None # CreateDirectoryCall q (Some e) # rest \<Rightarrow>
          p = backupRoot \<and> q = backupRoot \<and> rest = [] \<and> result = Some e
      | DeleteDirectoryCall p None # CreateDirectoryCall q None # rest \<Rightarrow>
          p = backupRoot \<and> q = backupRoot \<and>
          copy_protocol folders backupRoot projectRoot rest result
      | _ \<Rightarrow> False)"


text \<open>The conditions under which the two methods are studied.\<close>

text \<open>A folder name that is one path component: \<open>path.join\<close> appends it as it is.\<close>

definition simple_name :: "string \<Rightarrow> bool" where
  "simple_name f = (f \<noteq> [] \<and> f \<noteq> ''.'' \<and> f \<noteq> ''..'' \<and> CHR ''/'' \<notin> set f)"

text \<open>
  The two roots are separated: the project root is not inside the backup root, and the
  backup root is not inside a listed folder of the project.
\<close>

definition separated :: "path \<Rightarrow> path \<Rightarrow> string list \<Rightarrow> bool" where
  "separated backupDir projectDir folders =
     (\<not> prefix backupDir projectDir \<and> (\<forall>f\<in>set folders. \<not> prefix (projectDir @ [f]) backupDir))"

text \<open>A filesystem is well formed when every entry lies in a directory.\<close>

definition wf_tree :: "(path \<Rightarrow> entry option) \<Rightarrow> bool" where
  "wf_tree t = (\<forall>p x. t (p @ [x]) \<noteq> None \<longrightarrow> t p = Some Dir)"

section \<open>Dependency queries\<close>

text \<open>
  The two mappings of \<open>IProjectData\<close> that \<open>hasDependency\<close> reads (each may be
  \<open>undefined\<close>), and the field of \<open>IDependency\<close> it reads.
\<close>

record ProjectData =
  dependencies :: "(string \<Rightarrow> string option) option"
  devDependencies :: "(string \<Rightarrow> string option) option"

record IDependency =
  packageName :: string

text \<open>
  The value of a property access: \<open>undefined\<close>, a string, or a member that a plain
  object inherits from \<open>Object.prototype\<close> (a function or an object). In a condition
  JavaScript takes \<open>undefined\<close> and the empty string as false, and an inherited member
  as true.
\<close>

datatype jsval = Undefined | Str string | Inherited string

fun js_truthy :: "jsval \<Rightarrow> bool" where
  "js_truthy Undefined = False"
| "js_truthy (Str s) = (s \<noteq> [])"
| "js_truthy (Inherited name) = True"

definition object_prototype_members :: "string list" where
  "object_prototype_members =
     [''constructor'', ''__defineGetter__'', ''__defineSetter__'', ''hasOwnProperty'',
      ''__lookupGetter__'', ''__lookupSetter__'', ''isPrototypeOf'', ''propertyIsEnumerable'',
      ''toString'', ''valueOf'', ''__proto__'', ''toLocaleString'']"

text \<open>
  \<open>obj && obj[key]\<close>: \<open>undefined\<close> when the object is; else the property, which is
  the own value of the key, or the inherited member of that name, or \<open>undefined\<close>.
  \<open>a || b\<close>: \<open>a\<close> when it is truthy, else \<open>b\<close>.
\<close>

definition js_and_lookup :: "(string \<Rightarrow> string option) option \<Rightarrow> string \<Rightarrow> jsval" where
  "js_and_lookup obj key =
     (case obj of
        None \<Rightarrow> Undefined
      | Some m \<Rightarrow>
          (case m key of
             Some v \<Rightarrow> Str v
           | None \<Rightarrow> if key \<in> set object_prototype_members then Inherited key else Undefined))"

definition js_or :: "jsval \<Rightarrow> jsval \<Rightarrow> jsval" where
  "js_or a b = (if js_truthy a then a else b)"

text \<open>
  \<open>hasDependency\<close> returns the value of the JavaScript expression, which is the
  looked-up version string, an inherited member or \<open>undefined\<close>; a caller reads it
  through \<open>js_truthy\<close>.
\<close>

definition hasDependency :: "IDependency \<Rightarrow> ProjectData \<Rightarrow> jsval" where
  "hasDependency dependency projectData =
     js_or (js_and_lookup (dependencies projectData) (packageName dependency))
           (js_and_lookup (devDependencies projectData) (packageName dependency))"

section \<open>Version resolution\<close>

text \<open>
  The semver library is a parameter: \<open>semver.valid\<close> and \<open>semver.validRange\<close> return
  the normalised version or range, or \<open>null\<close>.
\<close>

record semver_lib =
  semver_valid :: "string \<Rightarrow> string option"
  semver_validRange :: "string \<Rightarrow> string option"

text \<open>
  The registry collaborators are parameters as well: what each call answers now. A call
  resolves to a value or is rejected. The world holds the registry as it is at the
  moment, the log of the registry calls made so far, and the cache of the memoized
  \<open>getPackageManifest\<close>, which keeps the settled promise of each key.
\<close>

datatype 'a reply = Resolved 'a | Rejected string

record 'm registry =
  getTagVersion :: "string \<Rightarrow> string \<Rightarrow> string option reply"
  maxSatisfyingVersion :: "string \<Rightarrow> string \<Rightarrow> string option reply"
  manifest :: "string \<Rightarrow> bool \<Rightarrow> 'm reply"

datatype call =
    GetTagVersion string string
  | MaxSatisfyingVersion string string
  | Manifest string bool

record 'm world =
  registry :: "'m registry"
  calls :: "call list"
  cache :: "string \<Rightarrow> (error + 'm) option"

definition settle :: "'a reply \<Rightarrow> error + 'a" where
  "settle r = (case r of Resolved v \<Rightarrow> Inr v | Rejected why \<Rightarrow> Inl (RegistryLookupError why))"

definition await_getTagVersion ::
  "string \<Rightarrow> string \<Rightarrow> 'm world \<Rightarrow> (error + string option) \<times> 'm world" where
  "await_getTagVersion name tag w =
     (settle (getTagVersion (registry w) name tag),
      w\<lparr>calls := calls w @ [GetTagVersion name tag]\<rparr>)"

definition await_maxSatisfyingVersion ::
  "string \<Rightarrow> string \<Rightarrow> 'm world \<Rightarrow> (error + string option) \<times> 'm world" where
  "await_maxSatisfyingVersion name rng w =
     (settle (maxSatisfyingVersion (registry w) name rng),
      w\<lparr>calls := calls w @ [MaxSatisfyingVersion name rng]\<rparr>)"

definition await_manifest :: "string \<Rightarrow> bool \<Rightarrow> 'm world \<Rightarrow> (error + 'm) \<times> 'm world" where
  "await_manifest spec fullMetadata w =
     (settle (manifest (registry w) spec fullMetadata),
      w\<lparr>calls := calls w @ [Manifest spec fullMetadata]\<rparr>)"

definition getMaxDependencyVersion ::
  "semver_lib \<Rightarrow> string \<Rightarrow> string \<Rightarrow> 'm world \<Rightarrow> (error + string option) \<times> 'm world" where
  "getMaxDependencyVersion semver dependency version w =
     (if truthy (semver_valid semver version) then (Inr (Some version), w)
      else if truthy (semver_validRange semver version)
        then await_maxSatisfyingVersion dependency version w
      else await_getTagVersion dependency version w)"

text \<open>
  The first statement of \<open>_getPackageManifest\<close>:
  \<open>semver.valid(version) || await getTagVersion(templateName, version)\<close>.
\<close>

definition packageVersion ::
  "semver_lib \<Rightarrow> string \<Rightarrow> string \<Rightarrow> 'm world \<Rightarrow> (error + string option) \<times> 'm world" where
  "packageVersion semver templateName version w =
     (if truthy (semver_valid semver version) then (Inr (semver_valid semver version), w)
      else await_getTagVersion templateName version w)"

definition failure_message :: "string \<Rightarrow> string \<Rightarrow> string" where
  "failure_message templateName version =
     ''Failed to get information for package: '' @ templateName @ ''@'' @ version"

text \<open>The private method \<open>_getPackageManifest\<close>.\<close>

definition private_getPackageManifest ::
  "semver_lib \<Rightarrow> string \<Rightarrow> string \<Rightarrow> 'm world \<Rightarrow> (error + 'm) \<times> 'm world" where
  "private_getPackageManifest semver templateName version w =
     (case packageVersion semver templateName version w of
        (Inl e, w1) \<Rightarrow> (Inl e, w1)
      | (Inr pv, w1) \<Rightarrow>
          (case pv of
             None \<Rightarrow> (Inl (Error (failure_message templateName version)), w1)
           | Some v \<Rightarrow>
               if truthy (Some v) \<and> truthy (semver_valid semver v)
               then await_manifest (templateName @ ''@'' @ v) True w1
               else (Inl (Error (failure_message templateName version)), w1)))"

text \<open>
  \<open>Array.prototype.join\<close>, and the resolver given to \<open>_.memoize\<close> in the constructor:
  \<open>(...args) => args.join("@")\<close>.
\<close>

fun array_join :: "string \<Rightarrow> string list \<Rightarrow> string" where
  "array_join sep [] = []"
| "array_join sep [x] = x"
| "array_join sep (x # y # ys) = x @ sep @ array_join sep (y # ys)"

definition resolver :: "string list \<Rightarrow> string" where
  "resolver args = array_join ''@'' args"

text \<open>
  \<open>getPackageManifest\<close> is \<open>_.memoize(this._getPackageManifest, resolver)\<close>: a key in
  the cache answers from the cache, any other key runs the method and stores what it
  returned under the key.
\<close>

definition getPackageManifest ::
  "semver_lib \<Rightarrow> string \<Rightarrow> string \<Rightarrow> 'm world \<Rightarrow> (error + 'm) \<times> 'm world" where
  "getPackageManifest semver templateName version w =
     (let key = resolver [templateName, version] in
      case cache w key of
        Some r \<Rightarrow> (r, w)
      | None \<Rightarrow>
          (case private_getPackageManifest semver templateName version w of
             (r, w1) \<Rightarrow> (r, w1\<lparr>cache := (cache w1)(key \<mapsto> r)\<rparr>)))"

text \<open>
  What happens during the life of the process: calls of \<open>getPackageManifest\<close>, and
  changes of the registry between them.
\<close>

datatype 'm event = CallGetPackageManifest string string | RegistryChanged "'m registry"

fun exec :: "semver_lib \<Rightarrow> 'm event list \<Rightarrow> 'm world \<Rightarrow> 'm world" where
  "exec semver [] w = w"
| "exec semver (CallGetPackageManifest name version # evs) w =
     exec semver evs (snd (getPackageManifest semver name version w))"
| "exec semver (RegistryChanged r # evs) w = exec semver evs (w\<lparr>registry := r\<rparr>)"

section \<open>Example inputs\<close>

text \<open>
  The answers of semver on the specifiers used in the examples, and a registry in
  which the tag \<open>latest\<close> is bound to 3.2.0, the tag \<open>beta\<close> to a string that is no
  version, and 6.5.0 is the highest version in the range \<open>6.x\<close>.
\<close>

definition demo_semver :: semver_lib where
  "demo_semver =
     \<lparr>semver_valid = (\<lambda>s. if s = ''1.0.0'' \<or> s = ''3.2.0'' \<or> s = ''4.0.0'' \<or> s = ''6.5.0'' then Some s else None),
      semver_validRange = (\<lambda>s. if s = ''6.x'' then Some ''>=6.0.0 <7.0.0''
                                else if s = ''1.0.0'' \<or> s = ''3.2.0'' \<or> s = ''4.0.0'' \<or> s = ''6.5.0'' then Some s else None)\<rparr>"

definition demo_registry :: "string registry" where
  "demo_registry =
     \<lparr>getTagVersion = (\<lambda>name tag. if tag = ''latest'' then Resolved (Some ''3.2.0'')
                                   else if tag = ''beta'' then Resolved (Some ''not-a-version'')
                                   else Resolved None),
      maxSatisfyingVersion = (\<lambda>name rng. if rng = ''6.x'' then Resolved (Some ''6.5.0'') else Resolved None),
      manifest = (\<lambda>spec fullMetadata. Resolved (''manifest of '' @ spec))\<rparr>"

definition moved_registry :: "string registry" where
  "moved_registry = demo_registry\<lparr>getTagVersion := (\<lambda>name tag. Resolved (Some ''4.0.0''))\<rparr>"

definition demo_world :: "string world" where
  "demo_world = \<lparr>registry = demo_registry, calls = [], cache = Map.empty\<rparr>"

text \<open>A project whose \<open>package.json\<close> lists a dependency with the empty version string.\<close>

definition empty_version_project :: ProjectData where
  "empty_version_project = \<lparr>dependencies = Some [''tns-core-modules'' \<mapsto> ''''], devDependencies = None\<rparr>"

text \<open>
  The scenario of the specification: a project with the folders A and B, a backup root
  with the remains of an earlier backup, the backup set A, B, C; after the backup A is
  deleted and D is created, then the backup is restored. \<open>stray_folder\<close> is the
  project in which C was created after the backup; \<open>faulty_fs\<close> is the filesystem on
  which the fourth operation that can fail does so after it has copied one directory;
  \<open>after_normalised_restore\<close> is the project after a restore whose one folder name,
  \<open>A/../B\<close>, is not a plain name.
\<close>

definition demo_fs :: fs_state where
  "demo_fs =
     \<lparr>tree = [[] \<mapsto> Dir,
              [''project''] \<mapsto> Dir,
              [''project'', ''A''] \<mapsto> Dir,
              [''project'', ''A'', ''a.txt''] \<mapsto> File ''x'',
              [''project'', ''B''] \<mapsto> Dir,
              [''project'', ''B'', ''b.txt''] \<mapsto> File ''y'',
              [''backup''] \<mapsto> Dir,
              [''backup'', ''Old''] \<mapsto> Dir],
      faults = [],
      journal = []\<rparr>"

definition faulty_fs :: fs_state where
  "faulty_fs = demo_fs\<lparr>faults := [Pass, Pass, Pass, Fail (\<lambda>q. q = [''backup'', ''B''])]\<rparr>"

definition after_backup :: fs_state where
  "after_backup = snd (backup [''A'', ''B'', ''C''] [''backup''] [''project''] demo_fs)"

definition mutated :: fs_state where
  "mutated = snd (fs_createDirectory [''project'', ''D'']
                   (snd (fs_deleteDirectory [''project'', ''A''] after_backup)))"

definition after_restore :: fs_state where
  "after_restore = snd (restoreBackup [''A'', ''B'', ''C''] [''backup''] [''project''] mutated)"


definition after_normalised_restore :: fs_state where
  "after_normalised_restore = snd (restoreBackup [''A/../B''] [''backup''] [''project''] demo_fs)"


definition after_failed_backup :: fs_state where
  "after_failed_backup = snd (backup [''A'', ''B'', ''C''] [''backup''] [''project''] faulty_fs)"

section \<open>Version resolution: theorems\<close>

lemmas demo_defs = getPackageManifest_def private_getPackageManifest_def packageVersion_def
      await_getTagVersion_def await_manifest_def settle_def demo_semver_def demo_world_def
      demo_registry_def moved_registry_def resolver_def failure_message_def Let_def

text \<open>
  Claim C2. \<open>getMaxDependencyVersion\<close> returns an exact version unchanged and makes no
  registry call; for a specifier that is no exact version but a valid range it makes
  the one call \<open>maxSatisfyingVersion\<close> and returns its answer; for any other specifier
  it makes the one call \<open>getTagVersion\<close> and returns its answer. The three cases
  exclude each other and cover every specifier.
\<close>

theorem getMaxDependencyVersion_policy:
  "(truthy (semver_valid sv s) \<longrightarrow> getMaxDependencyVersion sv n s w = (Inr (Some s), w)) \<and>
   (\<not> truthy (semver_valid sv s) \<and> truthy (semver_validRange sv s) \<longrightarrow>
      getMaxDependencyVersion sv n s w =
        (settle (maxSatisfyingVersion (registry w) n s),
         w\<lparr>calls := calls w @ [MaxSatisfyingVersion n s]\<rparr>)) \<and>
   (\<not> truthy (semver_valid sv s) \<and> \<not> truthy (semver_validRange sv s) \<longrightarrow>
      getMaxDependencyVersion sv n s w =
        (settle (getTagVersion (registry w) n s),
         w\<lparr>calls := calls w @ [GetTagVersion n s]\<rparr>))"
  by (simp add: getMaxDependencyVersion_def await_maxSatisfyingVersion_def await_getTagVersion_def)

theorem getMaxDependencyVersion_policy_witness:
  "truthy (semver_valid demo_semver ''3.2.0'') \<and>
   getMaxDependencyVersion demo_semver ''tns-core-modules'' ''3.2.0'' demo_world
     = (Inr (Some ''3.2.0''), demo_world) \<and>
   \<not> truthy (semver_valid demo_semver ''6.x'') \<and> truthy (semver_validRange demo_semver ''6.x'') \<and>
   getMaxDependencyVersion demo_semver ''tns-android'' ''6.x'' demo_world
     = (Inr (Some ''6.5.0''), demo_world\<lparr>calls := [MaxSatisfyingVersion ''tns-android'' ''6.x'']\<rparr>) \<and>
   \<not> truthy (semver_valid demo_semver ''latest'') \<and> \<not> truthy (semver_validRange demo_semver ''latest'') \<and>
   getMaxDependencyVersion demo_semver ''tns-android'' ''latest'' demo_world
     = (Inr (Some ''3.2.0''), demo_world\<lparr>calls := [GetTagVersion ''tns-android'' ''latest'']\<rparr>)"
  using getMaxDependencyVersion_policy [of demo_semver "''3.2.0''" "''tns-core-modules''" demo_world]
        getMaxDependencyVersion_policy [of demo_semver "''6.x''" "''tns-android''" demo_world]
        getMaxDependencyVersion_policy [of demo_semver "''latest''" "''tns-android''" demo_world]
  by (simp add: demo_semver_def demo_world_def demo_registry_def settle_def)

section \<open>Dependency queries: theorems\<close>

text \<open>
  Claim C6. The name is a key of \<open>dependencies\<close>, bound to the empty version string,
  yet \<open>hasDependency\<close> returns \<open>undefined\<close>, which a caller reads as false: the code
  tests the looked-up version string, and the empty string is falsy.
\<close>

theorem hasDependency_empty_version:
  "js_and_lookup (dependencies empty_version_project) ''tns-core-modules'' = Str [] \<and>
   hasDependency \<lparr>packageName = ''tns-core-modules''\<rparr> empty_version_project = Undefined \<and>
   \<not> js_truthy (hasDependency \<lparr>packageName = ''tns-core-modules''\<rparr> empty_version_project)"
  by (simp add: hasDependency_def js_or_def js_and_lookup_def empty_version_project_def)

text \<open>
  What the code does decide: one of the two mappings has the name as an own key with a
  version string that is not empty, or lacks the key while the name is that of a
  member of \<open>Object.prototype\<close>.
\<close>

lemma js_truthy_lookup:
  "js_truthy (js_and_lookup obj k) \<longleftrightarrow>
     (\<exists>m. obj = Some m \<and>
          ((\<exists>v. m k = Some v \<and> v \<noteq> []) \<or> (m k = None \<and> k \<in> set object_prototype_members)))"
  by (cases obj; cases "the obj k") (auto simp add: js_and_lookup_def)

lemma hasDependency_truthy:
  "js_truthy (hasDependency d p) \<longleftrightarrow>
     js_truthy (js_and_lookup (dependencies p) (packageName d)) \<or>
     js_truthy (js_and_lookup (devDependencies p) (packageName d))"
  by (simp add: hasDependency_def js_or_def)

section \<open>Manifest retrieval: theorems\<close>

lemma getPackageManifest_cached:
  "cache w (resolver [n, s]) = Some r \<Longrightarrow> getPackageManifest sv n s w = (r, w)"
  by (simp add: getPackageManifest_def)

lemma getPackageManifest_stores:
  "cache (snd (getPackageManifest sv n s w)) (resolver [n, s]) = Some (fst (getPackageManifest sv n s w))"
  by (auto simp add: getPackageManifest_def Let_def split: option.splits prod.splits)

lemma packageVersion_frame:
  "cache (snd (packageVersion sv n s w)) = cache w \<and>
   registry (snd (packageVersion sv n s w)) = registry w"
  by (simp add: packageVersion_def await_getTagVersion_def)

lemma private_getPackageManifest_frame:
  "cache (snd (private_getPackageManifest sv n s w)) = cache w \<and>
   registry (snd (private_getPackageManifest sv n s w)) = registry w"
  using packageVersion_frame [of sv n s w]
  by (auto simp add: private_getPackageManifest_def await_manifest_def
      split: prod.splits sum.splits option.splits)

lemma getPackageManifest_keeps:
  "cache w k = Some r \<Longrightarrow> cache (snd (getPackageManifest sv n s w)) k = Some r"
  using private_getPackageManifest_frame [of sv n s w]
  by (auto simp add: getPackageManifest_def Let_def split: option.splits prod.splits)

lemma exec_keeps: "cache w k = Some r \<Longrightarrow> cache (exec sv evs w) k = Some r"
proof (induction evs arbitrary: w)
  case Nil
  then show ?case by simp
next
  case (Cons ev evs)
  show ?case
  proof (cases ev)
    case (CallGetPackageManifest n s)
    with Cons show ?thesis by (simp add: getPackageManifest_keeps)
  next
    case (RegistryChanged reg)
    with Cons show ?thesis by simp
  qed
qed

text \<open>
  Claim C3. After a first call of \<open>getPackageManifest\<close> for a name and a specifier,
  whatever calls and registry changes follow, a later call with the same name and
  specifier returns the result of the first call, success or failure, and leaves the
  world as it is: no registry call is made and no cache entry is lost.
\<close>

theorem getPackageManifest_memoized:
  "getPackageManifest sv n s (exec sv evs (snd (getPackageManifest sv n s w)))
     = (fst (getPackageManifest sv n s w), exec sv evs (snd (getPackageManifest sv n s w)))"
  by (rule getPackageManifest_cached) (rule exec_keeps, rule getPackageManifest_stores)


lemma getPackageManifest_uncached:
  "cache w (resolver [n, s]) = None \<Longrightarrow>
   getPackageManifest sv n s w =
     (fst (private_getPackageManifest sv n s w),
      (snd (private_getPackageManifest sv n s w))
        \<lparr>cache := (cache (snd (private_getPackageManifest sv n s w)))
           (resolver [n, s] \<mapsto> fst (private_getPackageManifest sv n s w))\<rparr>)"
  by (simp add: getPackageManifest_def Let_def split: prod.splits)

lemma private_uncached_non_exact:
  assumes "\<not> truthy (semver_valid sv s)"
  shows "private_getPackageManifest sv n s w =
     (case getTagVersion (registry w) n s of
        Rejected why \<Rightarrow> (Inl (RegistryLookupError why), w\<lparr>calls := calls w @ [GetTagVersion n s]\<rparr>)
      | Resolved None \<Rightarrow> (Inl (Error (failure_message n s)), w\<lparr>calls := calls w @ [GetTagVersion n s]\<rparr>)
      | Resolved (Some v) \<Rightarrow>
          if v \<noteq> [] \<and> truthy (semver_valid sv v)
          then (settle (manifest (registry w) (n @ ''@'' @ v) True),
                w\<lparr>calls := calls w @ [GetTagVersion n s, Manifest (n @ ''@'' @ v) True]\<rparr>)
          else (Inl (Error (failure_message n s)), w\<lparr>calls := calls w @ [GetTagVersion n s]\<rparr>))"
  using assms
  by (simp add: private_getPackageManifest_def packageVersion_def
      await_getTagVersion_def await_manifest_def settle_def
      split: reply.splits option.splits)

text \<open>
  Claim C4. For a specifier that is no exact version, a range included, the registry
  calls of \<open>getPackageManifest\<close> are none (the key is cached), or \<open>getTagVersion\<close>
  alone, or \<open>getTagVersion\<close> followed by one \<open>manifest\<close> call with \<open>fullMetadata\<close>
  true: never \<open>maxSatisfyingVersion\<close>. For a key not in the cache the tag is looked
  up, and when it is bound to a valid version the method fetches name@version and
  returns what the registry answers.
\<close>

theorem getPackageManifest_tag_only:
  assumes "\<not> truthy (semver_valid sv s)"
  shows "(\<exists>new. calls (snd (getPackageManifest sv n s w)) = calls w @ new \<and>
            (new = [] \<or> new = [GetTagVersion n s] \<or>
             (\<exists>v. new = [GetTagVersion n s, Manifest (n @ ''@'' @ v) True]))) \<and>
         (cache w (resolver [n, s]) = None \<longrightarrow>
            (\<exists>rest. calls (snd (getPackageManifest sv n s w)) = calls w @ GetTagVersion n s # rest) \<and>
            (\<forall>v. getTagVersion (registry w) n s = Resolved (Some v) \<and> v \<noteq> [] \<and>
                   truthy (semver_valid sv v) \<longrightarrow>
                 fst (getPackageManifest sv n s w)
                   = settle (manifest (registry w) (n @ ''@'' @ v) True) \<and>
                 calls (snd (getPackageManifest sv n s w))
                   = calls w @ [GetTagVersion n s, Manifest (n @ ''@'' @ v) True]))"
proof (cases "cache w (resolver [n, s])")
  case None
  show ?thesis
    by (simp add: getPackageManifest_uncached [OF None] private_uncached_non_exact [OF assms] None
        split: reply.splits option.splits)
next
  case (Some r)
  then show ?thesis by (simp add: getPackageManifest_cached [OF Some])
qed

lemma str_includes_prefix: "prefix sub s \<Longrightarrow> str_includes sub s"
  by (cases s) simp_all

lemma str_includes_append: "str_includes x (a @ x @ b)"
  by (induction a) (simp_all add: str_includes_prefix)

lemma private_Error_iff:
  "(\<exists>m. fst (private_getPackageManifest sv n s w) = Inl (Error m)) \<longleftrightarrow>
     (fst (packageVersion sv n s w) = Inr None \<or>
      (\<exists>v. fst (packageVersion sv n s w) = Inr (Some v) \<and> (v = [] \<or> \<not> truthy (semver_valid sv v))))"
  by (cases "packageVersion sv n s w"; cases "fst (packageVersion sv n s w)")
     (auto simp add: private_getPackageManifest_def await_manifest_def settle_def packageVersion_def
        await_getTagVersion_def
       split: option.splits reply.splits if_splits)

lemma private_Error_message:
  "fst (private_getPackageManifest sv n s w) = Inl (Error m) \<Longrightarrow> m = failure_message n s"
  by (cases "packageVersion sv n s w"; cases "fst (packageVersion sv n s w)")
     (auto simp add: private_getPackageManifest_def await_manifest_def settle_def packageVersion_def
        await_getTagVersion_def
       split: option.splits reply.splits if_splits)

text \<open>
  Claim C5, as amended. For a key not in the cache, \<open>getPackageManifest\<close> throws its
  own \<open>Error\<close> exactly when the resolved version is absent, empty or no valid version,
  and the message of that error includes the package name and the original specifier.
\<close>

theorem getPackageManifest_resolution_error:
  assumes "cache w (resolver [n, s]) = None"
  shows "((\<exists>m. fst (getPackageManifest sv n s w) = Inl (Error m)) \<longleftrightarrow>
            (fst (packageVersion sv n s w) = Inr None \<or>
             (\<exists>v. fst (packageVersion sv n s w) = Inr (Some v) \<and>
                  (v = [] \<or> \<not> truthy (semver_valid sv v))))) \<and>
         (\<forall>m. fst (getPackageManifest sv n s w) = Inl (Error m) \<longrightarrow>
              m = ''Failed to get information for package: '' @ n @ ''@'' @ s \<and>
              str_includes n m \<and> str_includes s m)"
proof (intro conjI allI impI)
  show "(\<exists>m. fst (getPackageManifest sv n s w) = Inl (Error m)) \<longleftrightarrow>
            (fst (packageVersion sv n s w) = Inr None \<or>
             (\<exists>v. fst (packageVersion sv n s w) = Inr (Some v) \<and>
                  (v = [] \<or> \<not> truthy (semver_valid sv v))))"
    using private_Error_iff [of sv n s w] by (simp add: getPackageManifest_uncached [OF assms])
next
  fix m assume "fst (getPackageManifest sv n s w) = Inl (Error m)"
  then have m: "m = failure_message n s"
    using private_Error_message [of sv n s w m] by (simp add: getPackageManifest_uncached [OF assms])
  show "m = ''Failed to get information for package: '' @ n @ ''@'' @ s"
    using m by (simp add: failure_message_def)
  show "str_includes n m"
    using str_includes_append [of n "''Failed to get information for package: ''" "''@'' @ s"]
    by (simp add: m failure_message_def)
  show "str_includes s m"
    using str_includes_append [of s "''Failed to get information for package: '' @ n @ ''@''" "[]"]
    by (simp add: m failure_message_def)
qed

text \<open>
  Claim C5 as stated fails: the tag \<open>beta\<close> resolves to \<open>not-a-version\<close>, and the
  message of the error does not include that resolved value.
\<close>

theorem getPackageManifest_error_omits_resolved:
  "fst (packageVersion demo_semver ''tns-core-modules'' ''beta'' demo_world) = Inr (Some ''not-a-version'') \<and>
   fst (getPackageManifest demo_semver ''tns-core-modules'' ''beta'' demo_world)
     = Inl (Error ''Failed to get information for package: tns-core-modules@beta'') \<and>
   \<not> str_includes ''not-a-version'' ''Failed to get information for package: tns-core-modules@beta''"
  by (simp add: getPackageManifest_def private_getPackageManifest_def packageVersion_def
      await_getTagVersion_def settle_def demo_semver_def demo_world_def demo_registry_def
      resolver_def failure_message_def)


lemma getPackageManifest_registry:
  "registry (snd (getPackageManifest sv n s w)) = registry w"
  using private_getPackageManifest_frame [of sv n s w]
  by (auto simp add: getPackageManifest_def Let_def split: option.splits prod.splits)

lemma getPackageManifest_other_key:
  "k \<noteq> resolver [n, s] \<Longrightarrow> cache (snd (getPackageManifest sv n s w)) k = cache w k"
  using private_getPackageManifest_frame [of sv n s w]
  by (auto simp add: getPackageManifest_def Let_def split: option.splits prod.splits)

lemma packageVersion_result_depends:
  "registry w' = registry w \<Longrightarrow> fst (packageVersion sv n s w') = fst (packageVersion sv n s w)"
  by (simp add: packageVersion_def await_getTagVersion_def)

lemma private_result_depends:
  assumes "registry w' = registry w"
  shows "fst (private_getPackageManifest sv n s w') = fst (private_getPackageManifest sv n s w)"
proof -
  have pv: "fst (packageVersion sv n s w') = fst (packageVersion sv n s w)"
    using assms by (rule packageVersion_result_depends)
  have r: "registry (snd (packageVersion sv n s w')) = registry (snd (packageVersion sv n s w))"
    using assms by (simp add: packageVersion_frame)
  obtain a b where ab: "packageVersion sv n s w = (a, b)" by (cases "packageVersion sv n s w")
  obtain a' b' where ab': "packageVersion sv n s w' = (a', b')" by (cases "packageVersion sv n s w'")
  from pv r ab ab' have "a' = a" "registry b' = registry b" by simp_all
  then show ?thesis
    by (simp add: private_getPackageManifest_def ab ab' await_manifest_def
        split: sum.splits option.splits)
qed

lemma getPackageManifest_result_depends:
  assumes "registry w' = registry w" and "cache w' (resolver [n, s]) = cache w (resolver [n, s])"
  shows "fst (getPackageManifest sv n s w') = fst (getPackageManifest sv n s w)"
  using assms private_result_depends [OF assms(1), of sv n s]
  by (cases "private_getPackageManifest sv n s w"; cases "private_getPackageManifest sv n s w'")
     (simp add: getPackageManifest_def Let_def split: option.splits)

lemma resolver_pair: "resolver [n, s] = n @ ''@'' @ s"
  by (simp add: resolver_def)

lemma resolver_injective:
  assumes n1: "n1 \<noteq> []" "CHR ''@'' \<notin> set (tl n1)"
      and n2: "n2 \<noteq> []" "CHR ''@'' \<notin> set (tl n2)"
      and eq: "resolver [n1, s1] = resolver [n2, s2]"
  shows "n1 = n2 \<and> s1 = s2"
proof -
  from eq have e: "n1 @ CHR ''@'' # s1 = n2 @ CHR ''@'' # s2"
    by (simp add: resolver_pair)
  then obtain us where us:
    "(n1 = n2 @ us \<and> us @ CHR ''@'' # s1 = CHR ''@'' # s2) \<or>
     (n1 @ us = n2 \<and> CHR ''@'' # s1 = us @ CHR ''@'' # s2)"
    by (auto simp add: append_eq_append_conv2)
  show ?thesis
  proof (cases us)
    case Nil
    with us show ?thesis by auto
  next
    case (Cons u us')
    from us show ?thesis
    proof
      assume a: "n1 = n2 @ us \<and> us @ CHR ''@'' # s1 = CHR ''@'' # s2"
      with Cons have "u = CHR ''@''" by simp
      with a Cons n2(1) have "CHR ''@'' \<in> set (tl n1)" by (cases n2) auto
      with n1(2) show ?thesis by simp
    next
      assume a: "n1 @ us = n2 \<and> CHR ''@'' # s1 = us @ CHR ''@'' # s2"
      with Cons have "u = CHR ''@''" by simp
      with a Cons n1(1) have "CHR ''@'' \<in> set (tl n2)" by (cases n1) auto
      with n2(2) show ?thesis by simp
    qed
  qed
qed

text \<open>
  Claim C8, as amended. The cache key is the name, an \<open>@\<close> and the specifier in one
  string. Two calls whose keys differ are independent: the first leaves the cache
  entry of the second alone, and the second returns what it would have returned
  without the first. Two different pairs have different keys whenever both names are
  not empty and hold no \<open>@\<close> after their first character.
\<close>

theorem getPackageManifest_keys_independent:
  "(resolver [n1, s1] \<noteq> resolver [n2, s2] \<longrightarrow>
      cache (snd (getPackageManifest sv n1 s1 w)) (resolver [n2, s2]) = cache w (resolver [n2, s2]) \<and>
      fst (getPackageManifest sv n2 s2 (snd (getPackageManifest sv n1 s1 w)))
        = fst (getPackageManifest sv n2 s2 w)) \<and>
   (n1 \<noteq> [] \<and> CHR ''@'' \<notin> set (tl n1) \<and> n2 \<noteq> [] \<and> CHR ''@'' \<notin> set (tl n2) \<and>
      (n1, s1) \<noteq> (n2, s2) \<longrightarrow> resolver [n1, s1] \<noteq> resolver [n2, s2])"
proof (intro conjI impI)
  assume ne: "resolver [n1, s1] \<noteq> resolver [n2, s2]"
  then have k: "resolver [n2, s2] \<noteq> resolver [n1, s1]" by simp
  show c: "cache (snd (getPackageManifest sv n1 s1 w)) (resolver [n2, s2]) = cache w (resolver [n2, s2])"
    using k by (rule getPackageManifest_other_key)
  show "fst (getPackageManifest sv n2 s2 (snd (getPackageManifest sv n1 s1 w)))
        = fst (getPackageManifest sv n2 s2 w)"
    by (rule getPackageManifest_result_depends [OF getPackageManifest_registry c])
next
  assume a: "n1 \<noteq> [] \<and> CHR ''@'' \<notin> set (tl n1) \<and> n2 \<noteq> [] \<and> CHR ''@'' \<notin> set (tl n2) \<and>
      (n1, s1) \<noteq> (n2, s2)"
  show "resolver [n1, s1] \<noteq> resolver [n2, s2]"
  proof
    assume "resolver [n1, s1] = resolver [n2, s2]"
    with a resolver_injective [of n1 n2 s1 s2] show False by simp
  qed
qed

text \<open>
  Claim C8 as stated fails: two different pairs with the same key; the second call
  observes the failure cached for the first instead of fetching its manifest.
\<close>

theorem getPackageManifest_key_collision:
  "(''tns-core-modules'', ''next@1.0.0'') \<noteq> (''tns-core-modules@next'', ''1.0.0'') \<and>
   fst (getPackageManifest demo_semver ''tns-core-modules@next'' ''1.0.0'' demo_world)
     = Inr ''manifest of tns-core-modules@next@1.0.0'' \<and>
   fst (getPackageManifest demo_semver ''tns-core-modules@next'' ''1.0.0''
          (snd (getPackageManifest demo_semver ''tns-core-modules'' ''next@1.0.0'' demo_world)))
     = Inl (Error ''Failed to get information for package: tns-core-modules@next@1.0.0'')"
  by (simp add: getPackageManifest_def private_getPackageManifest_def packageVersion_def
      await_getTagVersion_def await_manifest_def settle_def demo_semver_def demo_world_def
      demo_registry_def resolver_def failure_message_def Let_def)


theorem getPackageManifest_memoized_witness:
  "fst (getPackageManifest demo_semver ''tns-core-modules'' ''latest''
          (demo_world\<lparr>registry := moved_registry\<rparr>))
     = Inr ''manifest of tns-core-modules@4.0.0'' \<and>
   fst (getPackageManifest demo_semver ''tns-core-modules'' ''latest''
          (exec demo_semver [RegistryChanged moved_registry]
             (snd (getPackageManifest demo_semver ''tns-core-modules'' ''latest'' demo_world))))
     = Inr ''manifest of tns-core-modules@3.2.0'' \<and>
   calls (snd (getPackageManifest demo_semver ''tns-core-modules'' ''latest''
          (exec demo_semver [RegistryChanged moved_registry]
             (snd (getPackageManifest demo_semver ''tns-core-modules'' ''latest'' demo_world)))))
     = [GetTagVersion ''tns-core-modules'' ''latest'', Manifest ''tns-core-modules@3.2.0'' True]"
  using getPackageManifest_memoized [of demo_semver "''tns-core-modules''" "''latest''"
      "[RegistryChanged moved_registry]" demo_world]
  by (simp add: demo_defs)

theorem getPackageManifest_tag_only_witness:
  "cache demo_world (resolver [''tns-core-modules'', ''latest'']) = None \<and>
   \<not> truthy (semver_valid demo_semver ''latest'') \<and>
   fst (getPackageManifest demo_semver ''tns-core-modules'' ''latest'' demo_world)
     = Inr ''manifest of tns-core-modules@3.2.0'' \<and>
   calls (snd (getPackageManifest demo_semver ''tns-core-modules'' ''latest'' demo_world))
     = [GetTagVersion ''tns-core-modules'' ''latest'', Manifest ''tns-core-modules@3.2.0'' True] \<and>
   cache demo_world (resolver [''tns-android'', ''6.x'']) = None \<and>
   \<not> truthy (semver_valid demo_semver ''6.x'') \<and> truthy (semver_validRange demo_semver ''6.x'') \<and>
   calls (snd (getPackageManifest demo_semver ''tns-android'' ''6.x'' demo_world))
     = [GetTagVersion ''tns-android'' ''6.x'']"
  using getPackageManifest_tag_only [of demo_semver "''latest''" "''tns-core-modules''" demo_world]
        getPackageManifest_tag_only [of demo_semver "''6.x''" "''tns-android''" demo_world]
  by (simp add: demo_defs)

theorem getPackageManifest_resolution_error_witness:
  "cache demo_world (resolver [''tns-core-modules'', ''beta'']) = None \<and>
   fst (packageVersion demo_semver ''tns-core-modules'' ''beta'' demo_world) = Inr (Some ''not-a-version'') \<and>
   \<not> truthy (semver_valid demo_semver ''not-a-version'') \<and>
   fst (getPackageManifest demo_semver ''tns-core-modules'' ''beta'' demo_world)
     = Inl (Error ''Failed to get information for package: tns-core-modules@beta'') \<and>
   str_includes ''tns-core-modules'' ''Failed to get information for package: tns-core-modules@beta'' \<and>
   str_includes ''beta'' ''Failed to get information for package: tns-core-modules@beta''"
  using getPackageManifest_resolution_error [of demo_world "''tns-core-modules''" "''beta''" demo_semver]
  by (simp add: demo_defs)

theorem getPackageManifest_keys_independent_witness:
  "resolver [''tns-core-modules'', ''latest''] \<noteq> resolver [''tns-android'', ''latest''] \<and>
   fst (getPackageManifest demo_semver ''tns-android'' ''latest''
          (snd (getPackageManifest demo_semver ''tns-core-modules'' ''latest'' demo_world)))
     = Inr ''manifest of tns-android@3.2.0'' \<and>
   fst (getPackageManifest demo_semver ''tns-android'' ''latest'' demo_world)
     = Inr ''manifest of tns-android@3.2.0''"
  using getPackageManifest_keys_independent [of "''tns-core-modules''" "''latest''" "''tns-android''"
      "''latest''" demo_semver demo_world]
  by (simp add: demo_defs)

section \<open>Backup and restore: theorems\<close>

lemma split_on_absent: "c \<notin> set xs \<Longrightarrow> split_on c xs = [xs]"
  by (induction xs) auto

lemma path_join_simple: "simple_name f \<Longrightarrow> path_join p f = p @ [f]"
  by (simp add: simple_name_def path_join_def split_on_absent normalize_segment_def)

lemma prefix_append_cases:
  "prefix xs (ys @ zs) \<Longrightarrow> prefix xs ys \<or> (\<exists>u us. xs = ys @ u # us \<and> prefix (u # us) zs)"
proof -
  assume "prefix xs (ys @ zs)"
  then consider "prefix xs ys" | us where "xs = ys @ us" "prefix us zs"
    by (auto simp: prefix_append)
  then show ?thesis
  proof cases
    case 1
    then show ?thesis by simp
  next
    case 2
    then show ?thesis by (cases us) auto
  qed
qed

lemma sep_not_under_backup:
  assumes "separated B P F" and "g \<in> set F"
  shows "\<not> prefix B (P @ g # rest)"
proof
  assume "prefix B (P @ g # rest)"
  then consider "prefix B P" | u us where "B = P @ u # us" "prefix (u # us) (g # rest)"
    using prefix_append_cases by blast
  then show False
  proof cases
    case 1
    with assms show False by (simp add: separated_def)
  next
    case 2
    then have "prefix (P @ [g]) B" by simp
    with assms show False by (auto simp add: separated_def)
  qed
qed

lemma sep_not_above_backup:
  assumes "separated B P F" and "g \<in> set F"
  shows "\<not> prefix (P @ g # rest) B"
proof
  assume "prefix (P @ g # rest) B"
  then have "prefix ((P @ [g]) @ rest) B" by simp
  then have "prefix (P @ [g]) B" by (rule append_prefixD)
  with assms show False by (auto simp add: separated_def)
qed

lemma sep_not_under_backup_child:
  assumes "separated B P F" and "g \<in> set F"
  shows "\<not> prefix (B @ [x]) (P @ g # rest)"
  using sep_not_under_backup [OF assms] append_prefixD by blast

lemma sep_not_under_project_child:
  assumes "separated B P F" and "g \<in> set F"
  shows "\<not> prefix (P @ [g]) (B @ x # rest)"
proof
  assume "prefix (P @ [g]) (B @ x # rest)"
  then consider "prefix (P @ [g]) B" | u us where "P @ [g] = B @ u # us"
    using prefix_append_cases by blast
  then show False
  proof cases
    case 1
    with assms show False by (auto simp add: separated_def)
  next
    case 2
    then have "prefix B (P @ [g])" "B \<noteq> P @ [g]" by auto
    then have "prefix B P" by simp
    with assms show False by (simp add: separated_def)
  qed
qed

lemma separated_Cons: "separated B P (f # F) \<Longrightarrow> separated B P F"
  by (simp add: separated_def)

lemma record_call_fields:
  "tree (record_call c s) = tree s"
  "faults (record_call c s) = faults s"
  "journal (record_call c s) = journal s @ [c]"
  by (simp_all add: record_call_def)

lemma exists_result:
  "fs_exists p s = (b, s1) \<Longrightarrow>
     b = (tree s p \<noteq> None) \<and> tree s1 = tree s \<and> faults s1 = faults s \<and>
     journal s1 = journal s @ [ExistsCall p b]"
  by (auto simp add: fs_exists_def record_call_fields)

lemma exists_tree: "tree (snd (fs_exists p s)) = tree s"
  by (simp add: fs_exists_def record_call_fields)

lemma deleteDirectory_ok:
  "fs_deleteDirectory p s = (None, s1) \<Longrightarrow> tree s1 q = (if prefix p q then None else tree s q)"
  by (auto simp add: fs_deleteDirectory_def pop_fault_def record_call_fields split: fault.splits)

lemma deleteDirectory_frame:
  "\<not> prefix p q \<Longrightarrow> tree (snd (fs_deleteDirectory p s)) q = tree s q"
  by (auto simp add: fs_deleteDirectory_def pop_fault_def record_call_fields split: fault.splits)

lemma createDirectory_ok:
  "fs_createDirectory p s = (None, s1) \<Longrightarrow> tree s1 q = (if prefix q p then Some Dir else tree s q)"
  by (auto simp add: fs_createDirectory_def pop_fault_def record_call_fields
      split: fault.splits if_splits)

lemma createDirectory_frame:
  "\<not> prefix q p \<Longrightarrow> tree (snd (fs_createDirectory p s)) q = tree s q"
  by (auto simp add: fs_createDirectory_def pop_fault_def record_call_fields
      split: fault.splits if_splits)

lemma copy_tree_frame:
  "src = [] \<or> \<not> prefix (dst @ [last src]) q \<Longrightarrow> copy_tree r src dst t q = t q"
  by (auto simp add: copy_tree_def)

lemma copy_tree_at:
  "copy_tree r (S @ [f]) D t (D @ f # rest) =
     (if r (D @ f # rest)
      then (case t (S @ f # rest) of Some e \<Rightarrow> Some e | None \<Rightarrow> t (D @ f # rest))
      else t (D @ f # rest))"
  by (simp add: copy_tree_def)

lemma copyFile_tree:
  "\<exists>r. tree (snd (fs_copyFile src dst s)) = copy_tree r src dst (tree s)"
proof (cases "next_fault s")
  case Pass
  show ?thesis
  proof (cases "src = [] \<or> tree s src = None \<or> tree s dst \<noteq> Some Dir")
    case True
    have "tree (snd (fs_copyFile src dst s)) = copy_tree (\<lambda>q. False) src dst (tree s)"
      using Pass True
      by (auto simp add: fs_copyFile_def pop_fault_def copy_tree_def record_call_fields)
    then show ?thesis by blast
  next
    case False
    have "tree (snd (fs_copyFile src dst s)) = copy_tree (\<lambda>q. True) src dst (tree s)"
      using Pass False by (auto simp add: fs_copyFile_def pop_fault_def record_call_fields)
    then show ?thesis by blast
  qed
next
  case (Fail reached)
  have "tree (snd (fs_copyFile src dst s)) = copy_tree reached src dst (tree s)"
    using Fail by (auto simp add: fs_copyFile_def pop_fault_def record_call_fields)
  then show ?thesis by blast
qed

lemma copyFile_ok:
  "fs_copyFile src dst s = (None, s1) \<Longrightarrow>
     tree s1 = copy_tree (\<lambda>q. True) src dst (tree s) \<and> src \<noteq> [] \<and> tree s dst = Some Dir"
  by (auto simp add: fs_copyFile_def pop_fault_def record_call_fields
      split: fault.splits if_splits)

lemma copyFile_frame:
  "src = [] \<or> \<not> prefix (dst @ [last src]) q \<Longrightarrow> tree (snd (fs_copyFile src dst s)) q = tree s q"
  using copyFile_tree [of src dst s] by (auto simp add: copy_tree_frame)

lemma restoreBackup_frame_general:
  "\<forall>f\<in>set F. \<not> prefix (path_join P f) q \<and>
       (path_join B f = [] \<or> \<not> prefix (P @ [last (path_join B f)]) q) \<Longrightarrow>
   tree (snd (restoreBackup F B P s)) q = tree s q"
proof (induction F arbitrary: s)
  case Nil
  then show ?case by simp
next
  case (Cons f F)
  let ?d = "fs_deleteDirectory (path_join P f) s"
  let ?x = "fs_exists (path_join B f) (snd ?d)"
  let ?c = "fs_copyFile (path_join B f) P (snd ?x)"
  have d: "tree (snd ?d) q = tree s q"
    using Cons.prems by (simp add: deleteDirectory_frame)
  have x: "tree (snd ?x) q = tree s q"
    using d by (simp add: exists_tree)
  have c: "tree (snd ?c) q = tree s q"
    using Cons.prems x by (simp add: copyFile_frame)
  have r1: "tree (snd (restoreBackup F B P (snd ?x))) q = tree s q"
    using Cons.IH [of "snd ?x"] Cons.prems x by simp
  have r2: "tree (snd (restoreBackup F B P (snd ?c))) q = tree s q"
    using Cons.IH [of "snd ?c"] Cons.prems c by simp
  show ?case
    using d x c r1 r2
    by (cases ?d; cases ?x; cases ?c) (auto simp add: Let_def split: option.splits)
qed

lemma restoreBackup_frame:
  assumes "\<forall>f\<in>set F. simple_name f" and "\<forall>f\<in>set F. \<not> prefix (P @ [f]) q"
  shows "tree (snd (restoreBackup F B P s)) q = tree s q"
  using assms by (intro restoreBackup_frame_general) (simp add: path_join_simple)

lemma backup_folders_frame_general:
  "\<forall>f\<in>set F. path_join P f = [] \<or> \<not> prefix (B @ [last (path_join P f)]) q \<Longrightarrow>
   tree (snd (backup_folders F B P s)) q = tree s q"
proof (induction F arbitrary: s)
  case Nil
  then show ?case by simp
next
  case (Cons f F)
  let ?x = "fs_exists (path_join P f) s"
  let ?c = "fs_copyFile (path_join P f) B (snd ?x)"
  have x: "tree (snd ?x) q = tree s q"
    by (simp add: exists_tree)
  have c: "tree (snd ?c) q = tree s q"
    using Cons.prems x by (simp add: copyFile_frame)
  have r1: "tree (snd (backup_folders F B P (snd ?x))) q = tree s q"
    using Cons.IH [of "snd ?x"] Cons.prems x by simp
  have r2: "tree (snd (backup_folders F B P (snd ?c))) q = tree s q"
    using Cons.IH [of "snd ?c"] Cons.prems c by simp
  show ?case
    using x c r1 r2 by (cases ?x; cases ?c) (auto simp add: Let_def split: option.splits)
qed

lemma backup_folders_frame:
  assumes "\<forall>f\<in>set F. simple_name f" and "\<forall>f\<in>set F. \<not> prefix (B @ [f]) q"
  shows "tree (snd (backup_folders F B P s)) q = tree s q"
  using assms by (intro backup_folders_frame_general) (simp add: path_join_simple)

lemma restoreBackup_effect:
  assumes "\<forall>f\<in>set F. simple_name f" and "separated B P F"
      and "restoreBackup F B P s = (None, s')" and "f \<in> set F"
  shows "tree s' (P @ f # rest) = (if tree s (B @ [f]) = None then None else tree s (B @ f # rest))"
  using assms
proof (induction F arbitrary: s)
  case Nil
  then show ?case by simp
next
  case (Cons g G)
  have g: "path_join P g = P @ [g]" "path_join B g = B @ [g]"
    using Cons.prems(1) by (simp_all add: path_join_simple)
  have sepG: "separated B P G" using Cons.prems(2) by (rule separated_Cons)
  have simpG: "\<forall>f\<in>set G. simple_name f" using Cons.prems(1) by simp
  have gin: "g \<in> set (g # G)" by simp
  obtain s1 where d: "fs_deleteDirectory (P @ [g]) s = (None, s1)"
    using Cons.prems(3) g by (cases "fs_deleteDirectory (P @ [g]) s") (auto split: option.splits)
  have t1: "\<And>q. tree s1 q = (if prefix (P @ [g]) q then None else tree s q)"
    using d by (rule deleteDirectory_ok)
  have b1: "\<And>x r. tree s1 (B @ x # r) = tree s (B @ x # r)"
    using sep_not_under_project_child [OF Cons.prems(2) gin] by (simp add: t1)
  have b1': "\<And>x. tree s1 (B @ [x]) = tree s (B @ [x])"
    using b1 [of _ "[]"] by simp
  obtain found sx where x: "fs_exists (B @ [g]) s1 = (found, sx)"
    by (cases "fs_exists (B @ [g]) s1")
  have fx: "found = (tree s1 (B @ [g]) \<noteq> None)" and tx: "tree sx = tree s1"
    using exists_result [OF x] by simp_all
  obtain s2 where rest: "restoreBackup G B P s2 = (None, s')"
    and t2: "\<And>r. tree s2 (P @ g # r) = (if tree s (B @ [g]) = None then None else tree s (B @ g # r))"
    and b2: "\<And>x r. tree s2 (B @ x # r) = tree s (B @ x # r)"
  proof (cases found)
    case False
    then have "tree s (B @ [g]) = None" using fx by (simp add: b1')
    moreover have "restoreBackup G B P sx = (None, s')"
      using Cons.prems(3) g d x False by (simp add: Let_def)
    ultimately show ?thesis using that [of sx] b1 by (simp add: tx t1)
  next
    case True
    then have ex: "tree s (B @ [g]) \<noteq> None" using fx by (simp add: b1')
    obtain s2 where c: "fs_copyFile (B @ [g]) P sx = (None, s2)"
      and r: "restoreBackup G B P s2 = (None, s')"
      using Cons.prems(3) g d x True
      by (cases "fs_copyFile (B @ [g]) P sx") (auto simp add: Let_def split: option.splits)
    have c2: "tree s2 = copy_tree (\<lambda>q. True) (B @ [g]) P (tree s1)"
      using copyFile_ok [OF c] by (simp add: tx)
    have p1: "\<And>r. tree s1 (P @ g # r) = None"
      by (simp add: t1)
    have "\<And>r. tree s2 (P @ g # r) = tree s (B @ g # r)"
      by (simp add: c2 copy_tree_at p1 b1 split: option.splits)
    moreover have "\<And>x r. tree s2 (B @ x # r) = tree s (B @ x # r)"
      using sep_not_under_project_child [OF Cons.prems(2) gin]
      by (simp add: c2 copy_tree_frame b1)
    ultimately show ?thesis using that [of s2] r ex by simp
  qed
  have b2': "\<And>x. tree s2 (B @ [x]) = tree s (B @ [x])"
    using b2 [of _ "[]"] by simp
  show ?case
  proof (cases "f \<in> set G")
    case True
    show ?thesis
      using Cons.IH [OF simpG sepG rest True] by (simp add: b2 b2')
  next
    case False
    with Cons.prems(4) have fg: "f = g" by simp
    have "\<forall>h\<in>set G. \<not> prefix (P @ [h]) (P @ g # rest)"
      using False fg by auto
    then have "tree (snd (restoreBackup G B P s2)) (P @ g # rest) = tree s2 (P @ g # rest)"
      using simpG by (intro restoreBackup_frame) simp_all
    then show ?thesis using rest t2 fg by simp
  qed
qed

lemma backup_folders_project:
  assumes "\<forall>f\<in>set F. simple_name f" and "separated B P F'" and "g \<in> set F'"
  shows "tree (snd (backup_folders F B P s)) (P @ g # rest) = tree s (P @ g # rest)"
  using assms(1) sep_not_under_backup_child [OF assms(2,3)]
  by (intro backup_folders_frame) simp_all

lemma backup_folders_effect:
  assumes "\<forall>f\<in>set F. simple_name f" and "separated B P F"
      and "backup_folders F B P s = (None, s')" and "f \<in> set F"
  shows "tree s' (B @ f # rest) =
           (if tree s (P @ [f]) = None then tree s (B @ f # rest)
            else (case tree s (P @ f # rest) of Some e \<Rightarrow> Some e | None \<Rightarrow> tree s (B @ f # rest)))"
  using assms
proof (induction F arbitrary: s)
  case Nil
  then show ?case by simp
next
  case (Cons g G)
  have g: "path_join P g = P @ [g]"
    using Cons.prems(1) by (simp add: path_join_simple)
  have sepG: "separated B P G" using Cons.prems(2) by (rule separated_Cons)
  have simpG: "\<forall>f\<in>set G. simple_name f" using Cons.prems(1) by simp
  obtain s1 where rest: "backup_folders G B P s1 = (None, s')"
    and p1: "\<And>h r. h \<in> set (g # G) \<Longrightarrow> tree s1 (P @ h # r) = tree s (P @ h # r)"
    and t1: "\<And>r. tree s1 (B @ g # r) =
               (if tree s (P @ [g]) = None then tree s (B @ g # r)
                else (case tree s (P @ g # r) of Some e \<Rightarrow> Some e | None \<Rightarrow> tree s (B @ g # r)))"
    and o1: "\<And>x r. x \<noteq> g \<Longrightarrow> tree s1 (B @ x # r) = tree s (B @ x # r)"
  proof (cases "tree s (P @ [g]) = None")
    case True
    moreover have "backup_folders G B P (snd (fs_exists (P @ [g]) s)) = (None, s')"
      using Cons.prems(3) g True by (simp add: Let_def fs_exists_def)
    ultimately show ?thesis using that [of "snd (fs_exists (P @ [g]) s)"] by (simp add: exists_tree)
  next
    case False
    then have ex: "tree s (P @ [g]) \<noteq> None" .
    let ?sx = "snd (fs_exists (P @ [g]) s)"
    have tx: "tree ?sx = tree s" by (rule exists_tree)
    obtain s1 where c: "fs_copyFile (P @ [g]) B ?sx = (None, s1)"
      and r: "backup_folders G B P s1 = (None, s')"
      using Cons.prems(3) g False
      by (cases "fs_copyFile (P @ [g]) B ?sx")
         (auto simp add: Let_def fs_exists_def split: option.splits)
    have c1: "tree s1 = copy_tree (\<lambda>q. True) (P @ [g]) B (tree s)"
      using copyFile_ok [OF c] by (simp add: tx)
    have "\<And>h r. h \<in> set (g # G) \<Longrightarrow> tree s1 (P @ h # r) = tree s (P @ h # r)"
      using sep_not_under_backup_child [OF Cons.prems(2)]
      by (simp add: c1 copy_tree_frame)
    moreover have "\<And>r. tree s1 (B @ g # r) =
               (case tree s (P @ g # r) of Some e \<Rightarrow> Some e | None \<Rightarrow> tree s (B @ g # r))"
      by (simp add: c1 copy_tree_at)
    moreover have "\<And>x r. x \<noteq> g \<Longrightarrow> tree s1 (B @ x # r) = tree s (B @ x # r)"
      by (simp add: c1 copy_tree_frame)
    ultimately show ?thesis using that [of s1] r ex by simp
  qed
  have p1': "\<And>h. h \<in> set (g # G) \<Longrightarrow> tree s1 (P @ [h]) = tree s (P @ [h])"
    using p1 [of _ "[]"] by simp
  show ?case
  proof (cases "f \<in> set G")
    case True
    have fin: "f \<in> set (g # G)" using True by simp
    have ih: "tree s' (B @ f # rest) =
           (if tree s (P @ [f]) = None then tree s1 (B @ f # rest)
            else (case tree s (P @ f # rest) of Some e \<Rightarrow> Some e | None \<Rightarrow> tree s1 (B @ f # rest)))"
      using Cons.IH [OF simpG sepG rest True] by (simp add: p1 [OF fin] p1' [OF fin])
    show ?thesis
    proof (cases "f = g")
      case True
      then show ?thesis using ih t1 [of rest] by (simp split: option.splits)
    next
      case False
      then show ?thesis using ih o1 [of f rest] by (simp split: option.splits)
    qed
  next
    case False
    with Cons.prems(4) have fg: "f = g" by simp
    have "\<forall>h\<in>set G. \<not> prefix (B @ [h]) (B @ g # rest)"
      using False fg by auto
    then have "tree (snd (backup_folders G B P s1)) (B @ g # rest) = tree s1 (B @ g # rest)"
      using simpG by (intro backup_folders_frame) simp_all
    then have "tree s' (B @ g # rest) = tree s1 (B @ g # rest)"
      using rest by simp
    then show ?thesis unfolding fg using t1 [of rest] by simp
  qed
qed

lemma backup_folders_skip:
  "tree s (path_join P f) = None \<Longrightarrow>
   backup_folders (f # F) B P s = backup_folders F B P (snd (fs_exists (path_join P f) s))"
  by (simp add: Let_def fs_exists_def)

lemma backup_folders_copy:
  "tree s (path_join P f) \<noteq> None \<Longrightarrow>
   backup_folders (f # F) B P s =
     (case fs_copyFile (path_join P f) B (snd (fs_exists (path_join P f) s)) of
        (Some e, s2) \<Rightarrow> (Some e, s2)
      | (None, s2) \<Rightarrow> backup_folders F B P s2)"
  by (simp add: Let_def fs_exists_def)




lemma backup_folders_any:
  assumes "\<forall>f\<in>set F. simple_name f" and "separated B P F"
  shows "tree (snd (backup_folders F B P s)) (B @ x # rest) = tree s (B @ x # rest) \<or>
         (x \<in> set F \<and> tree (snd (backup_folders F B P s)) (B @ x # rest) = tree s (P @ x # rest))"
  using assms
proof (induction F arbitrary: s)
  case Nil
  then show ?case by simp
next
  case (Cons g G)
  have g: "path_join P g = P @ [g]"
    using Cons.prems(1) by (simp add: path_join_simple)
  have sepG: "separated B P G" using Cons.prems(2) by (rule separated_Cons)
  have simpG: "\<forall>f\<in>set G. simple_name f" using Cons.prems(1) by simp
  let ?sx = "snd (fs_exists (P @ [g]) s)"
  have tx: "tree ?sx = tree s" by (rule exists_tree)
  have fx: "fs_exists (P @ [g]) s = (tree s (P @ [g]) \<noteq> None, ?sx)"
    by (simp add: fs_exists_def)
  let ?c = "fs_copyFile (P @ [g]) B ?sx"
  obtain r where c1: "tree (snd ?c) = copy_tree r (P @ [g]) B (tree s)"
    using copyFile_tree [of "P @ [g]" B ?sx] tx by auto
  have pc: "\<And>h r. h \<in> set (g # G) \<Longrightarrow> tree (snd ?c) (P @ h # r) = tree s (P @ h # r)"
    using sep_not_under_backup_child [OF Cons.prems(2)]
    by (simp add: c1 copy_tree_frame)
  have bc: "tree (snd ?c) (B @ x # rest) = tree s (B @ x # rest) \<or>
            (x = g \<and> tree (snd ?c) (B @ x # rest) = tree s (P @ x # rest))"
  proof (cases "x = g")
    case True
    then show ?thesis by (simp add: c1 copy_tree_at split: option.splits)
  next
    case False
    then show ?thesis by (simp add: c1 copy_tree_frame)
  qed
  have ih0: "tree (snd (backup_folders G B P ?sx)) (B @ x # rest) = tree s (B @ x # rest) \<or>
         (x \<in> set G \<and> tree (snd (backup_folders G B P ?sx)) (B @ x # rest) = tree s (P @ x # rest))"
    using Cons.IH [OF simpG sepG, of ?sx] by (simp add: tx)
  have ih1: "tree (snd (backup_folders G B P (snd ?c))) (B @ x # rest) = tree (snd ?c) (B @ x # rest) \<or>
         (x \<in> set G \<and>
          tree (snd (backup_folders G B P (snd ?c))) (B @ x # rest) = tree (snd ?c) (P @ x # rest))"
    by (rule Cons.IH [OF simpG sepG])
  have ih1': "tree (snd (backup_folders G B P (snd ?c))) (B @ x # rest) = tree s (B @ x # rest) \<or>
         (x \<in> set (g # G) \<and>
          tree (snd (backup_folders G B P (snd ?c))) (B @ x # rest) = tree s (P @ x # rest))"
    using ih1 bc pc [of x rest] by auto
  have bc': "tree (snd ?c) (B @ x # rest) = tree s (B @ x # rest) \<or>
            (x \<in> set (g # G) \<and> tree (snd ?c) (B @ x # rest) = tree s (P @ x # rest))"
    using bc by auto
  have ih0': "tree (snd (backup_folders G B P ?sx)) (B @ x # rest) = tree s (B @ x # rest) \<or>
         (x \<in> set (g # G) \<and>
          tree (snd (backup_folders G B P ?sx)) (B @ x # rest) = tree s (P @ x # rest))"
    using ih0 by auto
  show ?case
  proof (cases "tree s (P @ [g]) = None")
    case True
    then have "backup_folders (g # G) B P s = backup_folders G B P ?sx"
      using backup_folders_skip [of s P g G B] g by simp
    then show ?thesis using ih0' by simp
  next
    case False
    then have step: "backup_folders (g # G) B P s =
        (case ?c of (Some e, s2) \<Rightarrow> (Some e, s2) | (None, s2) \<Rightarrow> backup_folders G B P s2)"
      using backup_folders_copy [of s P g G B] g by simp
    show ?thesis
    proof (cases ?c)
      case (Pair e s1)
      then show ?thesis
        using ih1' bc' by (cases e) (simp_all add: step del: backup_folders.simps)
    qed
  qed
qed

lemma wf_tree_below: "wf_tree t \<Longrightarrow> t p = None \<Longrightarrow> t (p @ rest) = None"
proof (induction rest rule: rev_induct)
  case Nil
  then show ?case by simp
next
  case (snoc x xs)
  show ?case
  proof (rule ccontr)
    assume "t (p @ xs @ [x]) \<noteq> None"
    then have "t ((p @ xs) @ [x]) \<noteq> None" by simp
    with snoc.prems(1) have "t (p @ xs) = Some Dir" unfolding wf_tree_def by blast
    with snoc show False by simp
  qed
qed

lemma backup_steps:
  assumes "backup F B P s = (None, s')"
  obtains s1 s2 where "fs_deleteDirectory B s = (None, s1)" "fs_createDirectory B s1 = (None, s2)"
    "backup_folders F B P s2 = (None, s')"
proof -
  obtain e1 s1 where d: "fs_deleteDirectory B s = (e1, s1)" by (cases "fs_deleteDirectory B s")
  obtain e2 s2 where c: "fs_createDirectory B s1 = (e2, s2)" by (cases "fs_createDirectory B s1")
  from assms d have e1: "e1 = None" by (cases e1) (simp_all add: backup_def)
  from assms d c e1 have e2: "e2 = None" by (cases e2) (simp_all add: backup_def)
  from assms d c e1 e2 have "backup_folders F B P s2 = (None, s')" by (simp add: backup_def)
  with d c e1 e2 show ?thesis using that by simp
qed

lemma emptied_backup:
  assumes "fs_deleteDirectory B s = (None, s1)" and "fs_createDirectory B s1 = (None, s2)"
  shows "tree s2 (B @ x # rest) = None"
    and "separated B P F \<Longrightarrow> g \<in> set F \<Longrightarrow> tree s2 (P @ g # rest) = tree s (P @ g # rest)"
proof -
  show "tree s2 (B @ x # rest) = None"
    by (simp add: createDirectory_ok [OF assms(2)] deleteDirectory_ok [OF assms(1)])
  assume sep: "separated B P F" "g \<in> set F"
  show "tree s2 (P @ g # rest) = tree s (P @ g # rest)"
    using sep_not_under_backup [OF sep] sep_not_above_backup [OF sep]
    by (simp add: createDirectory_ok [OF assms(2)] deleteDirectory_ok [OF assms(1)])
qed

lemma backup_effect:
  assumes "\<forall>f\<in>set F. simple_name f" and "separated B P F"
      and "backup F B P s = (None, s')" and "f \<in> set F"
  shows "tree s' (B @ f # rest) = (if tree s (P @ [f]) = None then None else tree s (P @ f # rest))"
proof -
  obtain s1 s2 where d: "fs_deleteDirectory B s = (None, s1)"
    and c: "fs_createDirectory B s1 = (None, s2)"
    and l: "backup_folders F B P s2 = (None, s')"
    using assms(3) by (rule backup_steps)
  have p: "\<And>r. tree s2 (P @ f # r) = tree s (P @ f # r)"
    using emptied_backup(2) [OF d c assms(2,4)] .
  have p': "tree s2 (P @ [f]) = tree s (P @ [f])" using p [of "[]"] by simp
  have b: "tree s2 (B @ f # rest) = None" using emptied_backup(1) [OF d c] .
  show ?thesis
    using backup_folders_effect [OF assms(1,2) l assms(4), of rest]
    by (simp add: p p' b split: option.splits)
qed

lemma backup_only_copies:
  assumes "\<forall>f\<in>set F. simple_name f" and "separated B P F"
      and "fs_deleteDirectory B s = (None, s1)" and "fs_createDirectory B s1 = (None, s2)"
      and "tree (snd (backup F B P s)) (B @ x # rest) \<noteq> None"
  shows "x \<in> set F \<and> tree (snd (backup F B P s)) (B @ x # rest) = tree s (P @ x # rest)"
proof -
  have eq: "backup F B P s = backup_folders F B P s2"
    using assms(3,4) by (simp add: backup_def)
  have b: "tree s2 (B @ x # rest) = None" using emptied_backup(1) [OF assms(3,4)] .
  from backup_folders_any [OF assms(1,2), of s2 x rest] assms(5) eq b
  have x: "x \<in> set F" and t: "tree (snd (backup F B P s)) (B @ x # rest) = tree s2 (P @ x # rest)"
    by auto
  show ?thesis using x t emptied_backup(2) [OF assms(3,4) assms(2) x] by simp
qed




lemma deleteDirectory_journal:
  "fs_deleteDirectory p s = (r, s1) \<Longrightarrow> journal s1 = journal s @ [DeleteDirectoryCall p r]"
  by (auto simp add: fs_deleteDirectory_def pop_fault_def record_call_fields split: fault.splits)

lemma createDirectory_journal:
  "fs_createDirectory p s = (r, s1) \<Longrightarrow> journal s1 = journal s @ [CreateDirectoryCall p r]"
  by (auto simp add: fs_createDirectory_def pop_fault_def record_call_fields
      split: fault.splits if_splits)

lemma copyFile_journal:
  "fs_copyFile src dst s = (r, s1) \<Longrightarrow> journal s1 = journal s @ [CopyFileCall src dst r]"
  by (auto simp add: fs_copyFile_def pop_fault_def record_call_fields
      split: fault.splits if_splits)

lemma exists_journal:
  "journal (snd (fs_exists p s)) = journal s @ [ExistsCall p (tree s p \<noteq> None)]"
  by (simp add: fs_exists_def record_call_fields)



lemma copyFile_changes:
  assumes "tree (snd (fs_copyFile src dst s)) q \<noteq> tree s q"
  shows "src \<noteq> [] \<and> prefix (dst @ [last src]) q"
  using assms copyFile_frame [of src dst q s] by blast

lemma backup_folders_run:
  "\<exists>J. journal (snd (backup_folders F B P s)) = journal s @ J \<and>
       copy_protocol F B P J (fst (backup_folders F B P s)) \<and>
       (\<forall>e. fst (backup_folders F B P s) = Some e \<longrightarrow>
            (\<exists>J0 src. J = J0 @ [CopyFileCall src B (Some e)])) \<and>
       (\<forall>q. tree (snd (backup_folders F B P s)) q \<noteq> tree s q \<longrightarrow>
            (\<exists>src r. CopyFileCall src B r \<in> set J \<and> src \<noteq> [] \<and> prefix (B @ [last src]) q))"
proof (induction F arbitrary: s)
  case Nil
  then show ?case by simp
next
  case (Cons f F)
  let ?p = "path_join P f"
  let ?sx = "snd (fs_exists ?p s)"
  have tx: "tree ?sx = tree s" by (rule exists_tree)
  show ?case
  proof (cases "tree s ?p = None")
    case True
    have step: "backup_folders (f # F) B P s = backup_folders F B P ?sx"
      using True by (rule backup_folders_skip)
    have jx: "journal ?sx = journal s @ [ExistsCall ?p False]"
      using True by (simp add: exists_journal)
    obtain J where J: "journal (snd (backup_folders F B P ?sx)) = journal ?sx @ J"
      "copy_protocol F B P J (fst (backup_folders F B P ?sx))"
      "\<forall>e. fst (backup_folders F B P ?sx) = Some e \<longrightarrow>
            (\<exists>J0 src. J = J0 @ [CopyFileCall src B (Some e)])"
      "\<forall>q. tree (snd (backup_folders F B P ?sx)) q \<noteq> tree ?sx q \<longrightarrow>
            (\<exists>src r. CopyFileCall src B r \<in> set J \<and> src \<noteq> [] \<and> prefix (B @ [last src]) q)"
      using Cons.IH [of ?sx] by blast
    let ?J = "ExistsCall ?p False # J"
    have a: "journal (snd (backup_folders (f # F) B P s)) = journal s @ ?J"
      using J(1) jx by (simp add: step del: backup_folders.simps)
    have b: "copy_protocol (f # F) B P ?J (fst (backup_folders (f # F) B P s))"
      using J(2) by (simp add: step del: backup_folders.simps)
    have c: "\<forall>e. fst (backup_folders (f # F) B P s) = Some e \<longrightarrow>
            (\<exists>J0 src. ?J = J0 @ [CopyFileCall src B (Some e)])"
    proof (intro allI impI)
      fix e assume "fst (backup_folders (f # F) B P s) = Some e"
      then obtain J0 src where "J = J0 @ [CopyFileCall src B (Some e)]"
        using J(3) by (auto simp add: step simp del: backup_folders.simps)
      then have "?J = (ExistsCall ?p False # J0) @ [CopyFileCall src B (Some e)]" by simp
      then show "\<exists>J0 src. ?J = J0 @ [CopyFileCall src B (Some e)]" by blast
    qed
    have d: "\<forall>q. tree (snd (backup_folders (f # F) B P s)) q \<noteq> tree s q \<longrightarrow>
            (\<exists>src r. CopyFileCall src B r \<in> set ?J \<and> src \<noteq> [] \<and> prefix (B @ [last src]) q)"
      using J(4) by (auto simp add: step tx simp del: backup_folders.simps)
    show ?thesis using a b c d by blast
  next
    case False
    obtain r3 s3 where cp: "fs_copyFile ?p B ?sx = (r3, s3)"
      by (cases "fs_copyFile ?p B ?sx")
    have step: "backup_folders (f # F) B P s =
        (case (r3, s3) of (Some e, s2) \<Rightarrow> (Some e, s2) | (None, s2) \<Rightarrow> backup_folders F B P s2)"
      using False cp backup_folders_copy [of s P f F B] by simp
    have j3: "journal s3 = journal s @ [ExistsCall ?p True, CopyFileCall ?p B r3]"
      using copyFile_journal [OF cp] False by (simp add: exists_journal)
    have ch: "\<And>q. tree s3 q \<noteq> tree s q \<Longrightarrow> ?p \<noteq> [] \<and> prefix (B @ [last ?p]) q"
      using copyFile_changes [of ?p B ?sx] cp by (simp add: tx)
    show ?thesis
    proof (cases r3)
      case (Some e)
      let ?J = "[ExistsCall ?p True, CopyFileCall ?p B (Some e)]"
      have res: "backup_folders (f # F) B P s = (Some e, s3)"
        using step Some by simp
      have a: "journal (snd (backup_folders (f # F) B P s)) = journal s @ ?J"
        using j3 Some by (simp add: res del: backup_folders.simps)
      have b: "copy_protocol (f # F) B P ?J (fst (backup_folders (f # F) B P s))"
        by (simp add: res del: backup_folders.simps)
      have "?J = [ExistsCall ?p True] @ [CopyFileCall ?p B (Some e)]" by simp
      then have c: "\<forall>e'. fst (backup_folders (f # F) B P s) = Some e' \<longrightarrow>
            (\<exists>J0 src. ?J = J0 @ [CopyFileCall src B (Some e')])"
        unfolding res by (metis fst_conv option.inject)
      have d: "\<forall>q. tree (snd (backup_folders (f # F) B P s)) q \<noteq> tree s q \<longrightarrow>
            (\<exists>src r. CopyFileCall src B r \<in> set ?J \<and> src \<noteq> [] \<and> prefix (B @ [last src]) q)"
      proof (intro allI impI)
        fix q assume "tree (snd (backup_folders (f # F) B P s)) q \<noteq> tree s q"
        then have "tree s3 q \<noteq> tree s q" by (simp add: res del: backup_folders.simps)
        then have "?p \<noteq> [] \<and> prefix (B @ [last ?p]) q" by (rule ch)
        moreover have "CopyFileCall ?p B (Some e) \<in> set ?J" by simp
        ultimately show "\<exists>src r. CopyFileCall src B r \<in> set ?J \<and> src \<noteq> [] \<and>
            prefix (B @ [last src]) q" by blast
      qed
      show ?thesis using a b c d by blast
    next
      case None
      have res: "backup_folders (f # F) B P s = backup_folders F B P s3"
        using step None by simp
      obtain J where J: "journal (snd (backup_folders F B P s3)) = journal s3 @ J"
        "copy_protocol F B P J (fst (backup_folders F B P s3))"
        "\<forall>e. fst (backup_folders F B P s3) = Some e \<longrightarrow>
              (\<exists>J0 src. J = J0 @ [CopyFileCall src B (Some e)])"
        "\<forall>q. tree (snd (backup_folders F B P s3)) q \<noteq> tree s3 q \<longrightarrow>
              (\<exists>src r. CopyFileCall src B r \<in> set J \<and> src \<noteq> [] \<and> prefix (B @ [last src]) q)"
        using Cons.IH [of s3] by blast
      let ?J = "ExistsCall ?p True # CopyFileCall ?p B None # J"
      have a: "journal (snd (backup_folders (f # F) B P s)) = journal s @ ?J"
        using J(1) j3 None by (simp add: res del: backup_folders.simps)
      have b: "copy_protocol (f # F) B P ?J (fst (backup_folders (f # F) B P s))"
        using J(2) by (simp add: res del: backup_folders.simps)
      have c: "\<forall>e. fst (backup_folders (f # F) B P s) = Some e \<longrightarrow>
            (\<exists>J0 src. ?J = J0 @ [CopyFileCall src B (Some e)])"
      proof (intro allI impI)
        fix e assume "fst (backup_folders (f # F) B P s) = Some e"
        then obtain J0 src where "J = J0 @ [CopyFileCall src B (Some e)]"
          using J(3) by (auto simp add: res simp del: backup_folders.simps)
        then have "?J = (ExistsCall ?p True # CopyFileCall ?p B None # J0) @
            [CopyFileCall src B (Some e)]" by simp
        then show "\<exists>J0 src. ?J = J0 @ [CopyFileCall src B (Some e)]" by blast
      qed
      have d: "\<forall>q. tree (snd (backup_folders (f # F) B P s)) q \<noteq> tree s q \<longrightarrow>
            (\<exists>src r. CopyFileCall src B r \<in> set ?J \<and> src \<noteq> [] \<and> prefix (B @ [last src]) q)"
      proof (intro allI impI)
        fix q assume q: "tree (snd (backup_folders (f # F) B P s)) q \<noteq> tree s q"
        show "\<exists>src r. CopyFileCall src B r \<in> set ?J \<and> src \<noteq> [] \<and> prefix (B @ [last src]) q"
        proof (cases "tree s3 q = tree s q")
          case True
          then have "tree (snd (backup_folders F B P s3)) q \<noteq> tree s3 q"
            using q by (simp add: res del: backup_folders.simps)
          then obtain src r where "CopyFileCall src B r \<in> set J" "src \<noteq> []"
            "prefix (B @ [last src]) q" using J(4) by blast
          then show ?thesis by auto
        next
          case False
          then have "?p \<noteq> [] \<and> prefix (B @ [last ?p]) q" by (rule ch)
          moreover have "CopyFileCall ?p B None \<in> set ?J" by simp
          ultimately show ?thesis by blast
        qed
      qed
      show ?thesis using a b c d by blast
    qed
  qed
qed


lemma backup_follows_protocol:
  "\<exists>J. journal (snd (backup F B P s)) = journal s @ J \<and>
       backup_protocol F B P J (fst (backup F B P s))"
proof -
  obtain r1 s1 where d: "fs_deleteDirectory B s = (r1, s1)" by (cases "fs_deleteDirectory B s")
  have j1: "journal s1 = journal s @ [DeleteDirectoryCall B r1]"
    using d by (rule deleteDirectory_journal)
  show ?thesis
  proof (cases r1)
    case (Some e)
    then have "backup F B P s = (Some e, s1)" using d by (simp add: backup_def)
    then show ?thesis using j1 Some by (simp add: backup_protocol_def)
  next
    case None
    obtain r2 s2 where c: "fs_createDirectory B s1 = (r2, s2)" by (cases "fs_createDirectory B s1")
    have j2: "journal s2 = journal s @ [DeleteDirectoryCall B None, CreateDirectoryCall B r2]"
      using createDirectory_journal [OF c] j1 None by simp
    show ?thesis
    proof (cases r2)
      case (Some e)
      then have "backup F B P s = (Some e, s2)" using d c None by (simp add: backup_def)
      then show ?thesis using j2 Some by (simp add: backup_protocol_def)
    next
      case None': None
      have res: "backup F B P s = backup_folders F B P s2"
        using d c None None' by (simp add: backup_def)
      obtain J where J: "journal (snd (backup_folders F B P s2)) = journal s2 @ J"
        "copy_protocol F B P J (fst (backup_folders F B P s2))"
        using backup_folders_run [of F B P s2] by blast
      have "journal (snd (backup F B P s)) =
              journal s @ (DeleteDirectoryCall B None # CreateDirectoryCall B None # J)"
        using J(1) j2 None' by (simp add: res)
      moreover have "backup_protocol F B P
          (DeleteDirectoryCall B None # CreateDirectoryCall B None # J) (fst (backup F B P s))"
        using J(2) by (simp add: res backup_protocol_def)
      ultimately show ?thesis by blast
    qed
  qed
qed

lemma backup_past_first_steps:
  assumes "journal (snd (backup F B P s)) =
             journal s @ DeleteDirectoryCall B None # CreateDirectoryCall B None # J"
  obtains s1 s2 where "fs_deleteDirectory B s = (None, s1)" "fs_createDirectory B s1 = (None, s2)"
    "backup F B P s = backup_folders F B P s2"
    "journal s2 = journal s @ [DeleteDirectoryCall B None, CreateDirectoryCall B None]"
proof -
  obtain r1 s1 where d: "fs_deleteDirectory B s = (r1, s1)" by (cases "fs_deleteDirectory B s")
  have j1: "journal s1 = journal s @ [DeleteDirectoryCall B r1]"
    using d by (rule deleteDirectory_journal)
  have r1: "r1 = None"
  proof (cases r1)
    case (Some e)
    then have "backup F B P s = (Some e, s1)" using d by (simp add: backup_def)
    with assms j1 Some show ?thesis by simp
  qed simp
  obtain r2 s2 where c: "fs_createDirectory B s1 = (r2, s2)" by (cases "fs_createDirectory B s1")
  have j2: "journal s2 = journal s @ [DeleteDirectoryCall B None, CreateDirectoryCall B r2]"
    using createDirectory_journal [OF c] j1 r1 by simp
  have r2: "r2 = None"
  proof (cases r2)
    case (Some e)
    then have "backup F B P s = (Some e, s2)" using d c r1 by (simp add: backup_def)
    with assms j2 Some show ?thesis by simp
  qed simp
  have "backup F B P s = backup_folders F B P s2"
    using d c r1 r2 by (simp add: backup_def)
  then show ?thesis using that [of s1 s2] d c r1 r2 j2 by simp
qed


text \<open>
  Claim C10. Whatever the folder list, the roots and the filesystem, \<open>backup\<close> first
  deletes the backup root and then creates it, before any copy. When both have
  succeeded and the call fails, the error is that of its last call, a copy into the
  backup root; the copying started from a backup root that was an empty directory;
  and whatever lies below the backup root afterwards lies in the target of a copy made
  by this call, so nothing of the previous backup is left. With plain folder names and
  separated roots it is, more precisely, the copy of an entry of a listed project
  folder.
\<close>

theorem backup_failure_destroys_prior:
  "(\<exists>J. journal (snd (backup F B P s)) = journal s @ J \<and>
        backup_protocol F B P J (fst (backup F B P s))) \<and>
   (\<forall>J e. journal (snd (backup F B P s)) =
             journal s @ DeleteDirectoryCall B None # CreateDirectoryCall B None # J \<and>
           fst (backup F B P s) = Some e \<longrightarrow>
      (\<exists>J0 src. J = J0 @ [CopyFileCall src B (Some e)]) \<and>
      (\<exists>s2. tree s2 B = Some Dir \<and> (\<forall>x rest. tree s2 (B @ x # rest) = None) \<and>
            journal s2 = journal s @ [DeleteDirectoryCall B None, CreateDirectoryCall B None] \<and>
            backup F B P s = backup_folders F B P s2) \<and>
      (\<forall>x rest. tree (snd (backup F B P s)) (B @ x # rest) \<noteq> None \<longrightarrow>
           (\<exists>src r. CopyFileCall src B r \<in> set J \<and> src \<noteq> [] \<and> last src = x)) \<and>
      ((\<forall>f\<in>set F. simple_name f) \<and> separated B P F \<longrightarrow>
           (\<forall>x rest. tree (snd (backup F B P s)) (B @ x # rest) \<noteq> None \<longrightarrow>
                x \<in> set F \<and>
                tree (snd (backup F B P s)) (B @ x # rest) = tree s (P @ x # rest))))"
proof (intro conjI allI impI)
  show "\<exists>J. journal (snd (backup F B P s)) = journal s @ J \<and>
        backup_protocol F B P J (fst (backup F B P s))"
    by (rule backup_follows_protocol)
next
  fix J e
  assume a: "journal (snd (backup F B P s)) =
             journal s @ DeleteDirectoryCall B None # CreateDirectoryCall B None # J \<and>
           fst (backup F B P s) = Some e"
  then obtain s1 s2 where d: "fs_deleteDirectory B s = (None, s1)"
    and c: "fs_createDirectory B s1 = (None, s2)"
    and res: "backup F B P s = backup_folders F B P s2"
    and j2: "journal s2 = journal s @ [DeleteDirectoryCall B None, CreateDirectoryCall B None]"
    using backup_past_first_steps [of F B P s J] by blast
  obtain J' where J': "journal (snd (backup_folders F B P s2)) = journal s2 @ J'"
    "\<forall>e. fst (backup_folders F B P s2) = Some e \<longrightarrow>
         (\<exists>J0 src. J' = J0 @ [CopyFileCall src B (Some e)])"
    "\<forall>q. tree (snd (backup_folders F B P s2)) q \<noteq> tree s2 q \<longrightarrow>
         (\<exists>src r. CopyFileCall src B r \<in> set J' \<and> src \<noteq> [] \<and> prefix (B @ [last src]) q)"
    using backup_folders_run [of F B P s2] by blast
  have JJ: "J' = J" using a J'(1) j2 by (simp add: res)
  have empty: "\<And>x rest. tree s2 (B @ x # rest) = None"
    using emptied_backup(1) [OF d c] .
  show "\<exists>J0 src. J = J0 @ [CopyFileCall src B (Some e)]"
    using J'(2) a JJ by (simp add: res)
  show "\<exists>s2. tree s2 B = Some Dir \<and> (\<forall>x rest. tree s2 (B @ x # rest) = None) \<and>
            journal s2 = journal s @ [DeleteDirectoryCall B None, CreateDirectoryCall B None] \<and>
            backup F B P s = backup_folders F B P s2"
    using empty j2 res createDirectory_ok [OF c, of B] by auto
  {
    fix x rest assume "tree (snd (backup F B P s)) (B @ x # rest) \<noteq> None"
    then have "tree (snd (backup_folders F B P s2)) (B @ x # rest) \<noteq> tree s2 (B @ x # rest)"
      using empty [of x rest] by (simp add: res)
    then obtain src r where "CopyFileCall src B r \<in> set J'" "src \<noteq> []"
      "prefix (B @ [last src]) (B @ x # rest)" using J'(3) by blast
    then show "\<exists>src r. CopyFileCall src B r \<in> set J \<and> src \<noteq> [] \<and> last src = x"
      using JJ by auto
  }
  {
    fix x rest
    assume h: "(\<forall>f\<in>set F. simple_name f) \<and> separated B P F"
      and t: "tree (snd (backup F B P s)) (B @ x # rest) \<noteq> None"
    from h have h1: "\<forall>f\<in>set F. simple_name f" and h2: "separated B P F" by simp_all
    from backup_only_copies [OF h1 h2 d c t]
    show "x \<in> set F" and "tree (snd (backup F B P s)) (B @ x # rest) = tree s (P @ x # rest)"
      by simp_all
  }
qed

lemmas fs_defs = backup_def fs_deleteDirectory_def fs_createDirectory_def fs_copyFile_def
  fs_exists_def record_call_def next_fault_def pop_fault_def copy_tree_def is_File_def path_join_def
  normalize_segment_def Let_def

lemma demo_backup: "backup [''A'', ''B'', ''C''] [''backup''] [''project''] demo_fs = (None, after_backup)"
  unfolding after_backup_def
  by (simp add: fs_defs demo_fs_def)

text \<open>
  Claim C1 as stated fails in the scenario of the specification: the project holds A
  and B, the backup set is A, B, C; after the backup A is deleted and D is created.
  The restore brings A and B back and leaves D in the project root.
\<close>

theorem restore_keeps_new_folder:
  "tree demo_fs [''project'', ''D''] = None \<and>
   fst (backup [''A'', ''B'', ''C''] [''backup''] [''project''] demo_fs) = None \<and>
   tree mutated [''project'', ''A''] = None \<and>
   tree mutated [''project'', ''D''] = Some Dir \<and>
   fst (restoreBackup [''A'', ''B'', ''C''] [''backup''] [''project''] mutated) = None \<and>
   tree after_restore [''project'', ''A'', ''a.txt''] = Some (File ''x'') \<and>
   tree after_restore [''project'', ''B'', ''b.txt''] = Some (File ''y'') \<and>
   tree after_restore [''project'', ''D''] = Some Dir"
  unfolding after_restore_def mutated_def after_backup_def
  by (simp add: fs_defs demo_fs_def)

text \<open>
  Claim C1, as amended. The folder names are plain names, the two roots are separated
  and the filesystem at backup time is well formed. When \<open>backup\<close> has succeeded, the
  project has then been changed in any way that leaves the backup root alone, and
  \<open>restoreBackup\<close> has succeeded, every listed folder is in the project root as it was
  at backup time: there with the contents of then, or absent if it was absent. Every
  path outside the listed folders is as it was before the restore, so a folder created
  after the backup under an unlisted name is still there.
\<close>

theorem backup_restore_round_trip:
  assumes "\<forall>f\<in>set F. simple_name f" and "separated B P F" and "wf_tree (tree s0)"
      and "backup F B P s0 = (None, s1)"
      and "\<forall>q. prefix B q \<longrightarrow> tree s2 q = tree s1 q"
      and "restoreBackup F B P s2 = (None, s3)"
  shows "(\<forall>f\<in>set F. \<forall>rest. tree s3 (P @ f # rest) = tree s0 (P @ f # rest)) \<and>
         (\<forall>q. (\<forall>f\<in>set F. \<not> prefix (P @ [f]) q) \<longrightarrow> tree s3 q = tree s2 q)"
proof (intro conjI ballI allI impI)
  fix f rest assume f: "f \<in> set F"
  have b: "\<And>r. tree s2 (B @ f # r) = (if tree s0 (P @ [f]) = None then None else tree s0 (P @ f # r))"
    using backup_effect [OF assms(1,2,4) f] assms(5) by simp
  have b': "tree s2 (B @ [f]) = tree s0 (P @ [f])"
    using b [of "[]"] by simp
  have below: "tree s0 (P @ [f]) = None \<Longrightarrow> tree s0 (P @ f # rest) = None"
    using wf_tree_below [OF assms(3), of "P @ [f]" rest] by simp
  show "tree s3 (P @ f # rest) = tree s0 (P @ f # rest)"
    using restoreBackup_effect [OF assms(1,2,6) f, of rest] below by (simp add: b b')
next
  fix q assume "\<forall>f\<in>set F. \<not> prefix (P @ [f]) q"
  then have "tree (snd (restoreBackup F B P s2)) q = tree s2 q"
    using assms(1) by (intro restoreBackup_frame) simp_all
  then show "tree s3 q = tree s2 q" using assms(6) by simp
qed

text \<open>
  Claim C9, as amended. \<open>restoreBackup\<close> changes nothing outside the paths it deletes
  and the targets it copies to, whatever the outcome; so when every folder name in the
  list is a plain name, an entry of the project root whose name is not in the list,
  and all below it, is left as it is.
\<close>

theorem restoreBackup_leaves_others:
  "((\<forall>f\<in>set F. \<not> prefix (path_join P f) q \<and>
        (path_join B f = [] \<or> \<not> prefix (P @ [last (path_join B f)]) q)) \<longrightarrow>
      tree (snd (restoreBackup F B P s)) q = tree s q) \<and>
   ((\<forall>f\<in>set F. simple_name f) \<and> x \<notin> set F \<longrightarrow>
      tree (snd (restoreBackup F B P s)) (P @ x # rest) = tree s (P @ x # rest))"
proof (intro conjI impI)
  assume "\<forall>f\<in>set F. \<not> prefix (path_join P f) q \<and>
        (path_join B f = [] \<or> \<not> prefix (P @ [last (path_join B f)]) q)"
  then show "tree (snd (restoreBackup F B P s)) q = tree s q"
    by (rule restoreBackup_frame_general)
next
  assume a: "(\<forall>f\<in>set F. simple_name f) \<and> x \<notin> set F"
  then have "\<forall>f\<in>set F. \<not> prefix (P @ [f]) (P @ x # rest)" by auto
  with a show "tree (snd (restoreBackup F B P s)) (P @ x # rest) = tree s (P @ x # rest)"
    by (intro restoreBackup_frame) simp_all
qed

lemma demo_simple: "\<forall>f\<in>set [''A'', ''B'', ''C'']. simple_name f"
  by (simp add: simple_name_def)

lemma demo_separated: "separated [''backup''] [''project''] [''A'', ''B'', ''C'']"
  by (simp add: separated_def)

lemma demo_wf: "wf_tree (tree demo_fs)"
  by (auto simp add: wf_tree_def demo_fs_def snoc_eq_iff_butlast split: if_splits)

lemma demo_mutation: "\<forall>q. prefix [''backup''] q \<longrightarrow> tree mutated q = tree after_backup q"
proof (intro allI impI)
  fix q :: path assume "prefix [''backup''] q"
  then obtain r where q: "q = ''backup'' # r" by (cases q) auto
  have "\<not> prefix q [''project'', ''D'']" "\<not> prefix [''project'', ''A''] q"
    by (simp_all add: q)
  then show "tree mutated q = tree after_backup q"
    unfolding mutated_def by (simp add: createDirectory_frame deleteDirectory_frame)
qed

lemma demo_restore:
  "restoreBackup [''A'', ''B'', ''C''] [''backup''] [''project''] mutated = (None, after_restore)"
  unfolding after_restore_def mutated_def after_backup_def
  by (simp add: fs_defs demo_fs_def)

theorem backup_restore_round_trip_witness:
  "backup [''A'', ''B'', ''C''] [''backup''] [''project''] demo_fs = (None, after_backup) \<and>
   restoreBackup [''A'', ''B'', ''C''] [''backup''] [''project''] mutated = (None, after_restore) \<and>
   tree mutated [''project'', ''A'', ''a.txt''] = None \<and>
   tree after_restore [''project'', ''A'', ''a.txt''] = Some (File ''x'') \<and>
   tree after_restore [''project'', ''B'', ''b.txt''] = Some (File ''y'') \<and>
   tree after_restore [''project'', ''C''] = None \<and>
   tree after_restore [''project'', ''D''] = tree mutated [''project'', ''D'']"
proof -
  have m: "tree mutated [''project'', ''A'', ''a.txt''] = None"
    unfolding mutated_def after_backup_def by (simp add: fs_defs demo_fs_def)
  from backup_restore_round_trip [OF demo_simple demo_separated demo_wf demo_backup
      demo_mutation demo_restore]
  have r: "(\<forall>f\<in>set [''A'', ''B'', ''C'']. \<forall>rest.
              tree after_restore ([''project''] @ f # rest) = tree demo_fs ([''project''] @ f # rest)) \<and>
           (\<forall>q. (\<forall>f\<in>set [''A'', ''B'', ''C'']. \<not> prefix ([''project''] @ [f]) q) \<longrightarrow>
              tree after_restore q = tree mutated q)" .
  have a: "tree after_restore [''project'', ''A'', ''a.txt''] = Some (File ''x'')"
    using r by (simp add: demo_fs_def)
  have b: "tree after_restore [''project'', ''B'', ''b.txt''] = Some (File ''y'')"
    using r by (simp add: demo_fs_def)
  have c: "tree after_restore [''project'', ''C''] = None"
    using r by (simp add: demo_fs_def)
  have d: "tree after_restore [''project'', ''D''] = tree mutated [''project'', ''D'']"
    using r by simp
  show ?thesis
    using demo_backup demo_restore m a b c d by blast
qed

theorem restoreBackup_leaves_others_witness:
  "''D'' \<notin> set [''A'', ''B'', ''C''] \<and>
   tree mutated [''project'', ''D''] = Some Dir \<and>
   tree after_restore [''project'', ''D''] = Some Dir \<and>
   tree after_restore [''project'', ''D'', ''new.txt''] = tree mutated [''project'', ''D'', ''new.txt'']"
proof -
  have h: "\<forall>f\<in>set [''A'', ''B'', ''C''].
      \<not> prefix (path_join [''project''] f) [''project'', ''D''] \<and>
      (path_join [''backup''] f = [] \<or>
       \<not> prefix ([''project''] @ [last (path_join [''backup''] f)]) [''project'', ''D''])"
    by (simp add: path_join_def normalize_segment_def)
  have n: "''D'' \<notin> set [''A'', ''B'', ''C'']" by simp
  have m: "tree mutated [''project'', ''D''] = Some Dir"
    unfolding mutated_def after_backup_def by (simp add: fs_defs demo_fs_def)
  have t1: "tree after_restore [''project'', ''D''] = Some Dir"
    using restoreBackup_leaves_others [of "[''A'', ''B'', ''C'']" "[''project'']"
        "[''project'', ''D'']" "[''backup'']" mutated "''D''" "[]"] h m
    unfolding after_restore_def by simp
  have t2: "tree after_restore [''project'', ''D'', ''new.txt'']
              = tree mutated [''project'', ''D'', ''new.txt'']"
    using restoreBackup_leaves_others [of "[''A'', ''B'', ''C'']" "[''project'']"
        "[''project'', ''D'']" "[''backup'']" mutated "''D''" "[''new.txt'']"] demo_simple n
    unfolding after_restore_def by simp
  show ?thesis using n m t1 t2 by blast
qed



text \<open>
  Claim C9 as stated fails for a folder name that \<open>path.join\<close> normalises: the list
  holds only \<open>A/../B\<close>, and the restore deletes the entry B of the project root,
  whose name is not in the list.
\<close>

theorem restoreBackup_normalised_name:
  "''B'' \<notin> set [''A/../B''] \<and>
   tree demo_fs [''project'', ''B''] = Some Dir \<and>
   tree demo_fs [''project'', ''B'', ''b.txt''] = Some (File ''y'') \<and>
   fst (restoreBackup [''A/../B''] [''backup''] [''project''] demo_fs) = None \<and>
   tree after_normalised_restore [''project'', ''B''] = None \<and>
   tree after_normalised_restore [''project'', ''B'', ''b.txt''] = None"
  unfolding after_normalised_restore_def
  by (simp add: fs_defs demo_fs_def)


theorem backup_failure_destroys_prior_witness:
  "journal after_failed_backup =
     [DeleteDirectoryCall [''backup''] None, CreateDirectoryCall [''backup''] None,
      ExistsCall [''project'', ''A''] True, CopyFileCall [''project'', ''A''] [''backup''] None,
      ExistsCall [''project'', ''B''] True,
      CopyFileCall [''project'', ''B''] [''backup''] (Some (FileSystemError ''copyFile''))] \<and>
   fst (backup [''A'', ''B'', ''C''] [''backup''] [''project''] faulty_fs)
     = Some (FileSystemError ''copyFile'') \<and>
   tree faulty_fs [''backup'', ''Old''] = Some Dir \<and>
   tree after_failed_backup [''backup'', ''Old''] = None \<and>
   tree after_failed_backup [''backup'', ''A'', ''a.txt''] = Some (File ''x'') \<and>
   tree after_failed_backup [''backup'', ''B''] = Some Dir \<and>
   tree after_failed_backup [''backup'', ''B'', ''b.txt''] = None"
proof -
  let ?J = "[ExistsCall [''project'', ''A''] True,
      CopyFileCall [''project'', ''A''] [''backup''] None,
      ExistsCall [''project'', ''B''] True,
      CopyFileCall [''project'', ''B''] [''backup''] (Some (FileSystemError ''copyFile''))]"
  have j: "journal after_failed_backup =
     [DeleteDirectoryCall [''backup''] None, CreateDirectoryCall [''backup''] None,
      ExistsCall [''project'', ''A''] True, CopyFileCall [''project'', ''A''] [''backup''] None,
      ExistsCall [''project'', ''B''] True,
      CopyFileCall [''project'', ''B''] [''backup''] (Some (FileSystemError ''copyFile''))]"
    unfolding after_failed_backup_def by (simp add: fs_defs faulty_fs_def demo_fs_def)
  have r: "fst (backup [''A'', ''B'', ''C''] [''backup''] [''project''] faulty_fs)
     = Some (FileSystemError ''copyFile'')"
    by (simp add: fs_defs faulty_fs_def demo_fs_def)
  have j0: "journal faulty_fs = []" by (simp add: faulty_fs_def demo_fs_def)
  have o: "tree faulty_fs [''backup'', ''Old''] = Some Dir"
    by (simp add: faulty_fs_def demo_fs_def)
  have v: "tree after_failed_backup [''backup'', ''A'', ''a.txt''] = Some (File ''x'')"
          "tree after_failed_backup [''backup'', ''B''] = Some Dir"
          "tree after_failed_backup [''backup'', ''B'', ''b.txt''] = None"
    unfolding after_failed_backup_def by (simp_all add: fs_defs faulty_fs_def demo_fs_def)
  have h: "journal (snd (backup [''A'', ''B'', ''C''] [''backup''] [''project''] faulty_fs)) =
             journal faulty_fs @ DeleteDirectoryCall [''backup''] None #
               CreateDirectoryCall [''backup''] None # ?J \<and>
           fst (backup [''A'', ''B'', ''C''] [''backup''] [''project''] faulty_fs)
             = Some (FileSystemError ''copyFile'')"
    using j r j0 unfolding after_failed_backup_def by simp
  from backup_failure_destroys_prior [of "[''A'', ''B'', ''C'']" "[''backup'']" "[''project'']"
      faulty_fs] h
  have "\<forall>x rest. tree (snd (backup [''A'', ''B'', ''C''] [''backup''] [''project''] faulty_fs))
            ([''backup''] @ x # rest) \<noteq> None \<longrightarrow>
          (\<exists>src r. CopyFileCall src [''backup''] r \<in> set ?J \<and> src \<noteq> [] \<and> last src = x)"
    by blast
  then have "tree after_failed_backup ([''backup''] @ ''Old'' # []) \<noteq> None \<longrightarrow>
          (\<exists>src r. CopyFileCall src [''backup''] r \<in> set ?J \<and> src \<noteq> [] \<and> last src = ''Old'')"
    unfolding after_failed_backup_def by blast
  then have t: "tree after_failed_backup [''backup'', ''Old''] = None" by auto
  show ?thesis using j r o t v by blast
qed

end
